theory Spec2Isabelle
  imports Main
begin

section \<open>The job table of tsh\<close>

text \<open>
  \<^verbatim>\<open>struct job_t { pid_t pid; int jid; int state; char cmdline[MAXLINE]; }\<close> and the
  global array \<^verbatim>\<open>jobs[MAXJOBS]\<close>. The array is a list in slot order; a pointer into
  it (what \<^verbatim>\<open>getjobpid\<close> and \<^verbatim>\<open>getjobjid\<close> return) is the index of the slot, and
  \<^verbatim>\<open>NULL\<close> is \<open>None\<close>.
\<close>

definition MAXJOBS :: nat where "MAXJOBS = 16"

definition UNDEF :: int where "UNDEF = 0"
definition FG :: int where "FG = 1"
definition BG :: int where "BG = 2"
definition ST :: int where "ST = 3"

record job_t =
  pid :: int
  jid :: int
  state :: int
  cmdline :: string

text \<open>The line feed that ends the format strings of the source.\<close>

definition NL :: char where "NL = CHR 0x0A"

text \<open>\<^verbatim>\<open>printf("%d", n)\<close>: the decimal digits of \<open>n\<close>, with a minus sign below zero.\<close>

fun digits :: "nat \<Rightarrow> string" where
  "digits n = (if n < 10 then [''0123456789'' ! n]
               else digits (n div 10) @ [''0123456789'' ! (n mod 10)])"

declare digits.simps [simp del]

definition show_int :: "int \<Rightarrow> string" where
  "show_int i = (if i < 0 then CHR ''-'' # digits (nat (- i)) else digits (nat i))"

text \<open>\<^verbatim>\<open>clearjob\<close>: all fields zero, the command line the empty string.\<close>

definition clearjob :: "job_t \<Rightarrow> job_t" where
  "clearjob job = job\<lparr>pid := 0, jid := 0, state := UNDEF, cmdline := []\<rparr>"

text \<open>The array as the C runtime zero-initialises it, and \<^verbatim>\<open>initjobs\<close>.\<close>

definition jobs0 :: "job_t list" where
  "jobs0 = replicate MAXJOBS \<lparr>pid = 0, jid = 0, state = 0, cmdline = []\<rparr>"

definition initjobs :: "job_t list \<Rightarrow> job_t list" where
  "initjobs jobs = map clearjob jobs"

text \<open>
  \<^verbatim>\<open>freejid\<close>. The first loop writes \<^verbatim>\<open>taken[jobs[i].jid] = 1\<close> into an array of
  \<open>MAXJOBS + 1\<close> cells; a jid outside \<open>0..MAXJOBS\<close> is a write out of bounds, which
  is \<open>None\<close> here. The second loop returns the first \<open>i\<close> of \<open>1..MAXJOBS\<close> with
  \<^verbatim>\<open>!taken[i]\<close>, and 0 when there is none.
\<close>

fun mark_taken :: "job_t list \<Rightarrow> bool list \<Rightarrow> bool list option" where
  "mark_taken [] taken = Some taken"
| "mark_taken (j # js) taken =
     (if jid j \<noteq> 0 then
        (if 0 \<le> jid j \<and> nat (jid j) < length taken
         then mark_taken js (taken[nat (jid j) := True]) else None)
      else mark_taken js taken)"

definition freejid :: "job_t list \<Rightarrow> int option" where
  "freejid jobs =
     (case mark_taken jobs (replicate (Suc MAXJOBS) False) of
        None \<Rightarrow> None
      | Some taken \<Rightarrow>
          Some (case find (\<lambda>i. \<not> taken ! i) [1..<Suc MAXJOBS] of
                  None \<Rightarrow> 0 | Some i \<Rightarrow> int i))"

text \<open>
  \<^verbatim>\<open>addjob\<close>. The result is the return value, the table, and what was printed;
  \<open>None\<close> when \<^verbatim>\<open>freejid\<close> wrote out of bounds. The slot loop stores into the first
  slot whose pid is 0; \<open>addjob_loop\<close> is \<open>None\<close> when it falls through to the final
  \<^verbatim>\<open>return 0\<close>.
\<close>

fun addjob_loop :: "job_t list \<Rightarrow> job_t \<Rightarrow> job_t list option" where
  "addjob_loop [] new = None"
| "addjob_loop (j # js) new =
     (if pid j = 0 then Some (new # js)
      else (case addjob_loop js new of None \<Rightarrow> None | Some js' \<Rightarrow> Some (j # js')))"

definition added_msg :: "job_t \<Rightarrow> string" where
  "added_msg j = ''Added job ['' @ show_int (jid j) @ ''] '' @ show_int (pid j) @ '' '' @
                 cmdline j @ [NL]"

definition too_many_msg :: string where
  "too_many_msg = ''Tried to create too many jobs'' @ [NL]"

definition addjob ::
  "bool \<Rightarrow> job_t list \<Rightarrow> int \<Rightarrow> int \<Rightarrow> string \<Rightarrow> (int \<times> job_t list \<times> string) option" where
  "addjob verbose jobs p st cl =
     (if p < 1 then Some (0, jobs, [])
      else (case freejid jobs of
              None \<Rightarrow> None
            | Some free \<Rightarrow>
                if free = 0 then Some (0, jobs, too_many_msg)
                else (let new = \<lparr>pid = p, jid = free, state = st, cmdline = cl\<rparr> in
                      case addjob_loop jobs new of
                        None \<Rightarrow> Some (0, jobs, [])
                      | Some jobs' \<Rightarrow>
                          Some (1, jobs', if verbose then added_msg new else []))))"

text \<open>\<^verbatim>\<open>deletejob\<close>: the return value and the table.\<close>

fun deletejob_loop :: "job_t list \<Rightarrow> int \<Rightarrow> int \<times> job_t list" where
  "deletejob_loop [] p = (0, [])"
| "deletejob_loop (j # js) p =
     (if pid j = p then (1, clearjob j # js)
      else (case deletejob_loop js p of (r, js') \<Rightarrow> (r, j # js')))"

definition deletejob :: "job_t list \<Rightarrow> int \<Rightarrow> int \<times> job_t list" where
  "deletejob jobs p = (if p < 1 then (0, jobs) else deletejob_loop jobs p)"

text \<open>\<^verbatim>\<open>fgpid\<close>: the pid of the first slot whose state is FG, 0 when there is none.\<close>

fun fgpid :: "job_t list \<Rightarrow> int" where
  "fgpid [] = 0"
| "fgpid (j # js) = (if state j = FG then pid j else fgpid js)"

text \<open>\<^verbatim>\<open>getjobpid\<close>, \<^verbatim>\<open>getjobjid\<close>: the index of the first slot that matches.\<close>

fun first_index :: "('a \<Rightarrow> bool) \<Rightarrow> 'a list \<Rightarrow> nat option" where
  "first_index P [] = None"
| "first_index P (x # xs) =
     (if P x then Some 0
      else (case first_index P xs of None \<Rightarrow> None | Some i \<Rightarrow> Some (Suc i)))"

definition getjobpid :: "job_t list \<Rightarrow> int \<Rightarrow> nat option" where
  "getjobpid jobs p = (if p < 1 then None else first_index (\<lambda>j. pid j = p) jobs)"

definition getjobjid :: "job_t list \<Rightarrow> int \<Rightarrow> nat option" where
  "getjobjid jobs n = (if n < 1 then None else first_index (\<lambda>j. jid j = n) jobs)"

definition pid2jid :: "job_t list \<Rightarrow> int \<Rightarrow> int" where
  "pid2jid jobs p =
     (if p < 1 then 0
      else (case first_index (\<lambda>j. pid j = p) jobs of None \<Rightarrow> 0 | Some i \<Rightarrow> jid (jobs ! i)))"

text \<open>\<^verbatim>\<open>listjobs\<close>: one line for every slot whose pid is not 0, in slot order.\<close>

definition state_word :: "nat \<Rightarrow> int \<Rightarrow> string" where
  "state_word i st =
     (if st = BG then ''Running ''
      else if st = FG then ''Foreground ''
      else if st = ST then ''Stopped ''
      else ''listjobs: Internal error: job['' @ show_int (int i) @ ''].state='' @
           show_int st @ '' '')"

fun listjobs_from :: "nat \<Rightarrow> job_t list \<Rightarrow> string" where
  "listjobs_from i [] = []"
| "listjobs_from i (j # js) =
     (if pid j \<noteq> 0
      then ''['' @ show_int (jid j) @ ''] ('' @ show_int (pid j) @ '') '' @
           state_word i (state j) @ cmdline j
      else []) @ listjobs_from (Suc i) js"

definition listjobs :: "job_t list \<Rightarrow> string" where
  "listjobs jobs = listjobs_from 0 jobs"

subsection \<open>Well-formed tables\<close>

text \<open>
  A slot is either cleared or holds a job with a positive pid and a jid of \<open>1..MAXJOBS\<close>;
  the jids of the occupied slots are pairwise distinct.
\<close>

definition cleared :: "job_t \<Rightarrow> bool" where
  "cleared j \<longleftrightarrow> pid j = 0 \<and> jid j = 0 \<and> state j = UNDEF \<and> cmdline j = []"

definition slot_ok :: "job_t \<Rightarrow> bool" where
  "slot_ok j \<longleftrightarrow> cleared j \<or> (1 \<le> pid j \<and> 1 \<le> jid j \<and> jid j \<le> int MAXJOBS)"

definition live_jids :: "job_t list \<Rightarrow> int set" where
  "live_jids jobs = jid ` {j \<in> set jobs. pid j \<noteq> 0}"

definition jobs_ok :: "job_t list \<Rightarrow> bool" where
  "jobs_ok jobs \<longleftrightarrow>
     length jobs = MAXJOBS \<and> list_all slot_ok jobs \<and>
     distinct (map jid (filter (\<lambda>j. pid j \<noteq> 0) jobs))"

text \<open>The tables that insertions and removals build from the initial one.\<close>

inductive table_reach :: "job_t list \<Rightarrow> bool" where
  init: "table_reach (initjobs jobs0)"
| add: "table_reach jobs \<Longrightarrow> addjob v jobs p st cl = Some (r, jobs', msg) \<Longrightarrow> table_reach jobs'"
| del: "table_reach jobs \<Longrightarrow> deletejob jobs p = (r, jobs') \<Longrightarrow> table_reach jobs'"

text \<open>
  \<open>n\<close> is the smallest positive integer that is not the jid of an occupied slot.
\<close>

definition smallest_free :: "job_t list \<Rightarrow> int \<Rightarrow> bool" where
  "smallest_free jobs n \<longleftrightarrow>
     1 \<le> n \<and> n \<notin> live_jids jobs \<and> (\<forall>k. 1 \<le> k \<and> k < n \<longrightarrow> k \<in> live_jids jobs)"

text \<open>\<open>n\<close> background jobs with pids 100, 101, ... added one after the other.\<close>

fun fill_table :: "nat \<Rightarrow> job_t list \<Rightarrow> job_t list" where
  "fill_table 0 jobs = jobs"
| "fill_table (Suc n) jobs =
     (case addjob False (fill_table n jobs) (100 + int n) BG [] of
        None \<Rightarrow> fill_table n jobs | Some (r, jobs', msg) \<Rightarrow> jobs')"

section \<open>The shell\<close>

text \<open>
  The state of the shell process: the job table, the \<^verbatim>\<open>verbose\<close> flag, the bytes written to standard output, and the calls
  \<^verbatim>\<open>kill(pid, sig)\<close> made so far, in order. What the operating system answers (the
  return values of \<^verbatim>\<open>fork\<close>, \<^verbatim>\<open>kill\<close>, \<^verbatim>\<open>sigprocmask\<close>, \<^verbatim>\<open>waitpid\<close>) is a parameter
  of the function that makes the call.
\<close>

datatype signal = SIGINT | SIGTSTP | SIGCONT

record shell =
  jobs :: "job_t list"
  verbose :: bool
  out :: string
  kills :: "(int \<times> signal) list"

text \<open>
  A function returns (\<open>Ret\<close>), ends the process through \<^verbatim>\<open>exit\<close> (\<open>Exit\<close> with the
  argument of \<^verbatim>\<open>exit\<close>), continues in the forked child (\<open>Child\<close>), or has no defined
  behaviour in C (\<open>Undef\<close>: a null pointer dereferenced, a write out of bounds, an
  \<^verbatim>\<open>atoi\<close> result that does not fit an \<^verbatim>\<open>int\<close>).
\<close>

datatype 'a res = Ret 'a | Exit int | Child | Undef

text \<open>
  Where the main control flow is once a command has been evaluated: back at the prompt, or
  inside \<^verbatim>\<open>waitfg(pid)\<close>. Every call of \<^verbatim>\<open>waitfg\<close> in the source is the last action of
  its command, so nothing else has to be remembered.
\<close>

datatype ctl = Prompt | Waitfg int

text \<open>
  The first argument of \<^verbatim>\<open>kill(2)\<close> as POSIX reads it: a positive value names one
  process, a value below \<open>-1\<close> the process group of its absolute value.
\<close>

datatype kill_target = Process int | ProcessGroup int | OwnGroup | Everyone

definition kill_target :: "int \<Rightarrow> kill_target" where
  "kill_target p =
     (if 0 < p then Process p
      else if p = 0 then OwnGroup
      else if p = - 1 then Everyone
      else ProcessGroup (- p))"

text \<open>
  \<^verbatim>\<open>atoi\<close> of the C library: white space, an optional sign, then the longest run of
  decimal digits; 0 when there is no digit. The C standard leaves the behaviour undefined
  when the value does not fit an \<^verbatim>\<open>int\<close> (32 bits here), which is \<open>None\<close>.
\<close>

definition isspace :: "char \<Rightarrow> bool" where
  "isspace c \<longleftrightarrow> c \<in> set [CHR '' '', CHR 0x09, CHR 0x0A, CHR 0x0B, CHR 0x0C, CHR 0x0D]"

definition isdigit :: "char \<Rightarrow> bool" where
  "isdigit c \<longleftrightarrow> c \<in> set ''0123456789''"

fun digits_value :: "int \<Rightarrow> string \<Rightarrow> int" where
  "digits_value acc [] = acc"
| "digits_value acc (c # cs) = digits_value (10 * acc + (of_char c - 48)) cs"

definition atoi :: "string \<Rightarrow> int option" where
  "atoi s =
     (let t = dropWhile isspace s;
          neg = (t \<noteq> [] \<and> hd t = CHR ''-'');
          u = (if t \<noteq> [] \<and> (hd t = CHR ''-'' \<or> hd t = CHR ''+'') then tl t else t);
          v = digits_value 0 (takeWhile isdigit u);
          r = (if neg then - v else v)
      in if - (2 ^ 31) \<le> r \<and> r < 2 ^ 31 then Some r else None)"

text \<open>
  \<^verbatim>\<open>parseline\<close>. The line is copied into \<^verbatim>\<open>static char array[MAXLINE]\<close>, and the
  arguments are stored in \<^verbatim>\<open>char *argv[MAXARGS]\<close> of \<^verbatim>\<open>eval\<close>. The last character
  of the line (the line feed) becomes a space; then each argument runs up to the next
  space, or, when it starts with a single quote, from after the quote up to the next single
  quote. An argument whose delimiter is missing ends the scan. The result is
  \<^verbatim>\<open>argv[0..argc-1]\<close>; \<^verbatim>\<open>argv[argc]\<close> is \<^verbatim>\<open>NULL\<close>.

  The source checks none of the bounds, so three inputs have no defined behaviour and
  give \<open>None\<close>: the empty string (a write to \<^verbatim>\<open>buf[-1]\<close>), a line of \<open>MAXLINE\<close>
  characters or more (\<^verbatim>\<open>strcpy\<close> beyond \<^verbatim>\<open>array\<close>), and a line of \<open>MAXARGS\<close>
  arguments or more (\<^verbatim>\<open>argv[argc++] = buf\<close> or \<^verbatim>\<open>argv[argc] = NULL\<close> beyond
  \<^verbatim>\<open>argv\<close>).
\<close>

definition MAXLINE :: nat where "MAXLINE = 1024"

definition MAXARGS :: nat where "MAXARGS = 128"

function parse_args :: "string \<Rightarrow> string list" where
  "parse_args buf =
     (let b = dropWhile (\<lambda>c. c = CHR '' '') buf;
          q = (b \<noteq> [] \<and> hd b = CHR 0x27);
          d = (if q then CHR 0x27 else CHR '' '');
          x = (if q then tl b else b)
      in if d \<in> set x
         then takeWhile (\<lambda>c. c \<noteq> d) x # parse_args (tl (dropWhile (\<lambda>c. c \<noteq> d) x))
         else [])"
  by pat_completeness auto

termination
proof (relation "measure length", goal_cases)
  case 1
  show ?case by simp
next
  case (2 buf b q d x)
  from 2 have "dropWhile (\<lambda>c. c \<noteq> d) x \<noteq> []" by (simp add: dropWhile_eq_Nil_conv)
  then have "length (tl (dropWhile (\<lambda>c. c \<noteq> d) x)) < length (dropWhile (\<lambda>c. c \<noteq> d) x)"
    by simp
  also have "\<dots> \<le> length x" by (rule length_dropWhile_le)
  also have "length x \<le> length b" using 2 by auto
  also have "length b \<le> length buf" using 2 by (simp add: length_dropWhile_le)
  finally show ?case by simp
qed

declare parse_args.simps [simp del]

definition parseline :: "string \<Rightarrow> string list option" where
  "parseline cl =
     (if cl = [] \<or> MAXLINE \<le> length cl then None
      else (let argv = parse_args (butlast cl @ '' '') in
            if length argv < MAXARGS then Some argv else None))"

subsection \<open>Built-in commands\<close>

definition no_such_job_msg :: "string \<Rightarrow> string" where
  "no_such_job_msg a = a @ '': No such job'' @ [NL]"

definition bg_msg :: "job_t \<Rightarrow> string" where
  "bg_msg j = ''['' @ show_int (jid j) @ ''] ('' @ show_int (pid j) @ '') '' @ cmdline j"

text \<open>
  The first half of \<^verbatim>\<open>do_bgfg\<close>: \<^verbatim>\<open>argv[1]\<close> names a jid when it starts with \<open>%\<close> and
  a pid otherwise; the result is the slot that \<^verbatim>\<open>getjobjid\<close> or \<^verbatim>\<open>getjobpid\<close> returns.
\<close>

definition bgfg_target :: "job_t list \<Rightarrow> string \<Rightarrow> nat option res" where
  "bgfg_target js a =
     (if a \<noteq> [] \<and> hd a = CHR ''%''
      then (case atoi (tl a) of None \<Rightarrow> Undef | Some n \<Rightarrow> Ret (getjobjid js n))
      else (case atoi a of None \<Rightarrow> Undef | Some p \<Rightarrow> Ret (getjobpid js p)))"

text \<open>
  \<^verbatim>\<open>do_bgfg\<close>, run from its first statement to its last with no signal handler in
  between; \<open>krv\<close> is what \<^verbatim>\<open>kill\<close> returns. In the \<^verbatim>\<open>fg\<close> branch the source writes
  \<^verbatim>\<open>job->state = FG\<close> first and reads \<^verbatim>\<open>fgpid(jobs)\<close> after it. The single statements,
  between which a handler can run, follow with the control points below.
\<close>

definition do_bgfg :: "int \<Rightarrow> shell \<Rightarrow> string list \<Rightarrow> (ctl \<times> shell) res" where
  "do_bgfg krv s argv =
     (case bgfg_target (jobs s) (argv ! 1) of
        Undef \<Rightarrow> Undef
      | Exit x \<Rightarrow> Exit x
      | Child \<Rightarrow> Child
      | Ret None \<Rightarrow> Ret (Prompt, s\<lparr>out := out s @ no_such_job_msg (argv ! 1)\<rparr>)
      | Ret (Some i) \<Rightarrow>
          (let job = jobs s ! i in
           if argv ! 0 = ''bg'' then
             (let s1 = s\<lparr>jobs := (jobs s)[i := job\<lparr>state := BG\<rparr>],
                         kills := kills s @ [(- pid job, SIGCONT)]\<rparr>
              in if krv = - 1 then Exit (- 1)
                 else Ret (Prompt, s1\<lparr>out := out s1 @ bg_msg (jobs s1 ! i)\<rparr>))
           else if argv ! 0 = ''fg'' then
             (let s1 = s\<lparr>jobs := (jobs s)[i := job\<lparr>state := FG\<rparr>]\<rparr>;
                  current_pid = fgpid (jobs s1)
              in if current_pid \<noteq> 0
                 then (if krv = - 1 then Exit (- 1)
                       else Ret (Waitfg current_pid,
                                 s1\<lparr>kills := kills s1 @ [(- pid job, SIGCONT)]\<rparr>))
                 else Ret (Prompt, s1))
           else Ret (Prompt, s)))"

definition missing_arg_msg :: string where
  "missing_arg_msg = ''Missing process Id or Job id'' @ [NL]"

text \<open>\<^verbatim>\<open>builtin_cmd\<close>: the return value, and where control is.\<close>

definition builtin_cmd :: "int \<Rightarrow> shell \<Rightarrow> string list \<Rightarrow> (int \<times> ctl \<times> shell) res" where
  "builtin_cmd krv s argv =
     (if argv ! 0 = ''jobs'' then Ret (1, Prompt, s\<lparr>out := out s @ listjobs (jobs s)\<rparr>)
      else if argv ! 0 = ''quit'' then Exit 1
      else if argv ! 0 = ''bg'' \<or> argv ! 0 = ''fg'' then
        (if length argv < 2 then Ret (1, Prompt, s\<lparr>out := out s @ missing_arg_msg\<rparr>)
         else (case do_bgfg krv s argv of
                 Ret (c, s') \<Rightarrow> Ret (1, c, s')
               | Exit x \<Rightarrow> Exit x
               | Child \<Rightarrow> Child
               | Undef \<Rightarrow> Undef))
      else Ret (0, Prompt, s))"

subsection \<open>Launching a job\<close>

record env =
  fork_rv :: int
  kill_rv :: int
  sigprocmask_rv :: int

definition launch_msg :: "job_t \<Rightarrow> string" where
  "launch_msg j = ''['' @ show_int (jid j) @ ''] ('' @ show_int (pid j) @ '') '' @
                  ''Running '' @ cmdline j"

text \<open>
  \<^verbatim>\<open>eval\<close> in the shell process, run with no signal handler in between.
  \<^verbatim>\<open>unix_error\<close> ends the process with status 1, so the \<^verbatim>\<open>exit(-1)\<close> after each of its
  calls is never reached. When \<^verbatim>\<open>fork\<close> returns 0 the control is in the child
  (\<open>Child\<close>), which is \<open>eval_child\<close> below.
\<close>

definition eval :: "env \<Rightarrow> shell \<Rightarrow> string \<Rightarrow> (ctl \<times> shell) res" where
  "eval e s cl =
     (case parseline cl of
        None \<Rightarrow> Undef
      | Some argv \<Rightarrow>
          if length argv = 0 then Ret (Prompt, s)
          else (case builtin_cmd (kill_rv e) s argv of
                  Undef \<Rightarrow> Undef
                | Exit x \<Rightarrow> Exit x
                | Child \<Rightarrow> Child
                | Ret (b, c, s') \<Rightarrow>
                    if b \<noteq> 0 then Ret (c, s')
                    else (let st = (if argv ! (length argv - 1) = ''&'' then BG else FG) in
                          if sigprocmask_rv e < 0 then Exit 1
                          else if fork_rv e < 0 then Exit 1
                          else if fork_rv e = 0 then Child
                          else (case addjob (verbose s) (jobs s) (fork_rv e) st cl of
                                  None \<Rightarrow> Undef
                                | Some (r, js', msg) \<Rightarrow>
                                    if r \<noteq> 1 then Exit 1
                                    else (let s1 = s\<lparr>jobs := js', out := out s @ msg\<rparr> in
                                          if st = BG
                                          then (case getjobpid js' (fork_rv e) of
                                                  None \<Rightarrow> Undef
                                                | Some i \<Rightarrow>
                                                    Ret (Prompt,
                                                         s1\<lparr>out := out s1 @ launch_msg (js' ! i)\<rparr>))
                                          else Ret (Waitfg (fork_rv e), s1))))))"

subsection \<open>Signal handlers\<close>

text \<open>
  \<^verbatim>\<open>sigchld_handler\<close>; the list holds what the successive calls
  \<^verbatim>\<open>waitpid(-1, NULL, WNOHANG)\<close> return. The loop runs while the value is positive.
\<close>

fun sigchld_handler :: "int list \<Rightarrow> shell \<Rightarrow> shell" where
  "sigchld_handler [] s = s"
| "sigchld_handler (j # ws) s =
     (if 0 < j then sigchld_handler ws (s\<lparr>jobs := snd (deletejob (jobs s) j)\<rparr>) else s)"

definition sigint_msg :: "job_t \<Rightarrow> string" where
  "sigint_msg j = ''Job ['' @ show_int (jid j) @ ''] ('' @ show_int (pid j) @
                  '') terminated by signal 2'' @ [NL]"

text \<open>\<^verbatim>\<open>sigint_handler\<close>: \<^verbatim>\<open>kill(-fg, SIGINT)\<close>, then the report line.\<close>

definition sigint_handler :: "int \<Rightarrow> shell \<Rightarrow> shell res" where
  "sigint_handler krv s =
     (let fg = fgpid (jobs s) in
      if fg \<noteq> 0 then
        (if krv = - 1 then Exit (- 1)
         else (case getjobpid (jobs s) fg of
                 None \<Rightarrow> Undef
               | Some i \<Rightarrow>
                   Ret (s\<lparr>kills := kills s @ [(- fg, SIGINT)],
                          out := out s @ sigint_msg (jobs s ! i)\<rparr>)))
      else Ret s)"

text \<open>\<^verbatim>\<open>sigtstp_handler\<close>: \<^verbatim>\<open>kill(fg, SIGTSTP)\<close>, then \<^verbatim>\<open>job->state = ST\<close>.\<close>

definition sigtstp_handler :: "int \<Rightarrow> shell \<Rightarrow> shell res" where
  "sigtstp_handler krv s =
     (let fg = fgpid (jobs s) in
      if fg \<noteq> 0 then
        (if krv = - 1 then Exit (- 1)
         else (case getjobpid (jobs s) fg of
                 None \<Rightarrow> Undef
               | Some i \<Rightarrow>
                   Ret (s\<lparr>kills := kills s @ [(fg, SIGTSTP)],
                          jobs := (jobs s)[i := (jobs s ! i)\<lparr>state := ST\<rparr>]\<rparr>)))
      else Ret s)"

subsection \<open>The states the shell reaches\<close>

text \<open>
  \<open>do_bgfg\<close>, \<open>builtin_cmd\<close> and \<open>eval\<close> above give a command that runs from its first
  statement to its last while no signal handler runs. In the program the handlers are
  installed before the first prompt, and the main flow blocks signals in two places only:
  \<^verbatim>\<open>eval\<close> blocks SIGCHLD, SIGINT and SIGTSTP from line 257 (before \<^verbatim>\<open>fork\<close>) to
  line 320 (after \<^verbatim>\<open>addjob\<close>), and \<^verbatim>\<open>waitfg\<close> blocks SIGCHLD alone around its test.
  \<^verbatim>\<open>builtin_cmd\<close> and \<^verbatim>\<open>do_bgfg\<close> are called at line 242, before anything is blocked.
  So a handler can run between any two statements of \<^verbatim>\<open>do_bgfg\<close>, between the
  unblocking in \<^verbatim>\<open>eval\<close> and its announcement, and inside \<^verbatim>\<open>waitfg\<close> as far as its
  mask allows.

  The control points of the main flow at which the job table has been read or written and
  is read or written again later:
  \<^item> \<open>AtPrompt\<close>: in \<^verbatim>\<open>fgets\<close> of \<^verbatim>\<open>main\<close>;
  \<^item> \<open>BgfgFound cmd i\<close>: in \<^verbatim>\<open>do_bgfg\<close>, \<^verbatim>\<open>job\<close> points to slot \<open>i\<close> (lines 431 or
    443), before \<^verbatim>\<open>argv[0]\<close>, here \<open>cmd\<close>, is compared (line 453);
  \<^item> \<open>BgWritten i\<close>: after \<^verbatim>\<open>job->state = BG\<close>, before \<^verbatim>\<open>kill\<close> (line 455);
  \<^item> \<open>BgSignalled i\<close>: after that \<^verbatim>\<open>kill\<close>, before \<^verbatim>\<open>printf\<close> (line 459);
  \<^item> \<open>FgWritten i\<close>: after \<^verbatim>\<open>job->state = FG\<close> (line 463), before \<^verbatim>\<open>fgpid(jobs)\<close>;
  \<^item> \<open>FgRead i p\<close>: after \<^verbatim>\<open>current_pid = fgpid(jobs)\<close> gave \<open>p \<noteq> 0\<close>, before
    \<^verbatim>\<open>kill\<close> (line 467);
  \<^item> \<open>Announce f\<close>: in the parent of \<^verbatim>\<open>eval\<close> with a background job \<open>f\<close>, after
    \<^verbatim>\<open>sigprocmask(SIG_UNBLOCK)\<close> (line 320), before \<^verbatim>\<open>getjobpid(jobs, f)\<close> (line 328);
  \<^item> \<open>WaitEnter p\<close>: \<^verbatim>\<open>waitfg(p)\<close> is called, SIGCHLD not yet blocked (line 492);
  \<^item> \<open>WaitCheck p b\<close>: SIGCHLD is blocked, before the test \<^verbatim>\<open>pid == fgpid(jobs)\<close> (line
    495); \<open>b\<close> tells whether a SIGCHLD is pending;
  \<^item> \<open>WaitBlock p b\<close>: the test was true, before \<^verbatim>\<open>sigsuspend(&prev_mask)\<close> (line 497);
  \<^item> \<open>WaitSuspended p b\<close>: inside \<^verbatim>\<open>sigsuspend\<close>, SIGCHLD unblocked; with \<open>b\<close> the
    pending SIGCHLD is about to be handled.
\<close>

datatype pc =
    AtPrompt
  | BgfgFound string nat
  | BgWritten nat
  | BgSignalled nat
  | FgWritten nat
  | FgRead nat int
  | Announce int
  | WaitEnter int
  | WaitCheck int bool
  | WaitBlock int bool
  | WaitSuspended int bool

definition shell0 :: "bool \<Rightarrow> shell" where
  "shell0 v = \<lparr>jobs = initjobs jobs0, verbose = v, out = [], kills = []\<rparr>"

text \<open>
  From the prompt to the first of these points: \<^verbatim>\<open>eval\<close> on the line read, up to the
  lookup of \<^verbatim>\<open>do_bgfg\<close>, or up to \<^verbatim>\<open>sigprocmask(SIG_UNBLOCK)\<close> behind \<^verbatim>\<open>addjob\<close>.
\<close>

definition begin_line :: "env \<Rightarrow> shell \<Rightarrow> string \<Rightarrow> (pc \<times> shell) res" where
  "begin_line e s cl =
     (case parseline cl of
        None \<Rightarrow> Undef
      | Some argv \<Rightarrow>
          if length argv = 0 then Ret (AtPrompt, s)
          else if argv ! 0 = ''jobs'' then Ret (AtPrompt, s\<lparr>out := out s @ listjobs (jobs s)\<rparr>)
          else if argv ! 0 = ''quit'' then Exit 1
          else if argv ! 0 = ''bg'' \<or> argv ! 0 = ''fg'' then
            (if length argv < 2 then Ret (AtPrompt, s\<lparr>out := out s @ missing_arg_msg\<rparr>)
             else (case bgfg_target (jobs s) (argv ! 1) of
                     Undef \<Rightarrow> Undef
                   | Exit x \<Rightarrow> Exit x
                   | Child \<Rightarrow> Child
                   | Ret None \<Rightarrow>
                       Ret (AtPrompt, s\<lparr>out := out s @ no_such_job_msg (argv ! 1)\<rparr>)
                   | Ret (Some i) \<Rightarrow> Ret (BgfgFound (argv ! 0) i, s)))
          else (let st = (if argv ! (length argv - 1) = ''&'' then BG else FG) in
                if sigprocmask_rv e < 0 then Exit 1
                else if fork_rv e < 0 then Exit 1
                else if fork_rv e = 0 then Child
                else (case addjob (verbose s) (jobs s) (fork_rv e) st cl of
                        None \<Rightarrow> Undef
                      | Some (r, js', msg) \<Rightarrow>
                          if r \<noteq> 1 then Exit 1
                          else Ret (if st = BG then Announce (fork_rv e)
                                    else WaitEnter (fork_rv e),
                                    s\<lparr>jobs := js', out := out s @ msg\<rparr>))))"

text \<open>
  The statements of \<^verbatim>\<open>do_bgfg\<close> behind the lookup, one by one. \<^verbatim>\<open>job\<close> is a pointer
  into the table, so each of them reads slot \<open>i\<close> as it is when the statement runs.
\<close>

definition bgfg_write :: "string \<Rightarrow> nat \<Rightarrow> shell \<Rightarrow> pc \<times> shell" where
  "bgfg_write cmd i s =
     (if cmd = ''bg'' then (BgWritten i, s\<lparr>jobs := (jobs s)[i := (jobs s ! i)\<lparr>state := BG\<rparr>]\<rparr>)
      else if cmd = ''fg'' then (FgWritten i, s\<lparr>jobs := (jobs s)[i := (jobs s ! i)\<lparr>state := FG\<rparr>]\<rparr>)
      else (AtPrompt, s))"

definition bg_signal :: "int \<Rightarrow> nat \<Rightarrow> shell \<Rightarrow> (pc \<times> shell) res" where
  "bg_signal krv i s =
     (if krv = - 1 then Exit (- 1)
      else Ret (BgSignalled i, s\<lparr>kills := kills s @ [(- pid (jobs s ! i), SIGCONT)]\<rparr>))"

definition bg_print :: "nat \<Rightarrow> shell \<Rightarrow> pc \<times> shell" where
  "bg_print i s = (AtPrompt, s\<lparr>out := out s @ bg_msg (jobs s ! i)\<rparr>)"

definition fg_read :: "nat \<Rightarrow> shell \<Rightarrow> pc \<times> shell" where
  "fg_read i s =
     (let current_pid = fgpid (jobs s) in
      if current_pid \<noteq> 0 then (FgRead i current_pid, s) else (AtPrompt, s))"

definition fg_signal :: "int \<Rightarrow> nat \<Rightarrow> int \<Rightarrow> shell \<Rightarrow> (pc \<times> shell) res" where
  "fg_signal krv i current_pid s =
     (if krv = - 1 then Exit (- 1)
      else Ret (WaitEnter current_pid,
                s\<lparr>kills := kills s @ [(- pid (jobs s ! i), SIGCONT)]\<rparr>))"

text \<open>
  The announcement of a background job in \<^verbatim>\<open>eval\<close>:
  \<^verbatim>\<open>struct job_t job = *getjobpid(jobs, f)\<close> and the three calls of \<^verbatim>\<open>printf\<close>.
\<close>

definition announce :: "int \<Rightarrow> shell \<Rightarrow> (pc \<times> shell) res" where
  "announce f s =
     (case getjobpid (jobs s) f of
        None \<Rightarrow> Undef
      | Some i \<Rightarrow> Ret (AtPrompt, s\<lparr>out := out s @ launch_msg (jobs s ! i)\<rparr>))"

text \<open>
  The next statement of the main flow at a control point; \<open>krv\<close> is what \<^verbatim>\<open>kill\<close>
  returns when the statement calls it. There is none at the prompt (the next line has to
  arrive) and none inside \<^verbatim>\<open>sigsuspend\<close> (a handler has to run first); a process that
  exits or has no defined behaviour has no next state either. In \<^verbatim>\<open>waitfg\<close>,
  \<^verbatim>\<open>sigprocmask(SIG_BLOCK)\<close> leads to the test, the test to \<^verbatim>\<open>sigsuspend\<close> when
  \<^verbatim>\<open>pid == fgpid(jobs)\<close> and back to the prompt otherwise.
\<close>

definition ret :: "'a res \<Rightarrow> 'a option" where
  "ret r = (case r of Ret x \<Rightarrow> Some x | Exit x \<Rightarrow> None | Child \<Rightarrow> None | Undef \<Rightarrow> None)"

definition main_step :: "int \<Rightarrow> pc \<Rightarrow> shell \<Rightarrow> (pc \<times> shell) option" where
  "main_step krv c s =
     (case c of
        AtPrompt \<Rightarrow> None
      | BgfgFound cmd i \<Rightarrow> Some (bgfg_write cmd i s)
      | BgWritten i \<Rightarrow> ret (bg_signal krv i s)
      | BgSignalled i \<Rightarrow> Some (bg_print i s)
      | FgWritten i \<Rightarrow> Some (fg_read i s)
      | FgRead i p \<Rightarrow> ret (fg_signal krv i p s)
      | Announce f \<Rightarrow> ret (announce f s)
      | WaitEnter p \<Rightarrow> Some (WaitCheck p False, s)
      | WaitCheck p b \<Rightarrow> Some (if p = fgpid (jobs s) then WaitBlock p b else AtPrompt, s)
      | WaitBlock p b \<Rightarrow> Some (WaitSuspended p b, s)
      | WaitSuspended p b \<Rightarrow> None)"

text \<open>
  What moves the shell: a line arrives at the prompt, the main flow executes its next
  statement, or a signal arrives. SIGINT and SIGTSTP are never blocked at a control point,
  so their handlers run at once. SIGCHLD is blocked at \<open>WaitCheck\<close> and \<open>WaitBlock\<close>, where
  it stays pending; everywhere else \<^verbatim>\<open>sigchld_handler\<close> runs at once, and the list gives
  what its calls of \<^verbatim>\<open>waitpid\<close> return. \<^verbatim>\<open>sigsuspend\<close> returns when a handler has run,
  with SIGCHLD blocked again. A handler runs to its end before the main flow continues.
\<close>

datatype event = Line env string | Main int | Sigchld "int list" | Sigint int | Sigtstp int

definition resume :: "pc \<Rightarrow> pc" where
  "resume c = (case c of WaitSuspended p b \<Rightarrow> WaitCheck p b | _ \<Rightarrow> c)"

fun fire :: "event \<Rightarrow> pc \<times> shell \<Rightarrow> (pc \<times> shell) option" where
  "fire (Line e cl) (c, s) = (if c = AtPrompt then ret (begin_line e s cl) else None)"
| "fire (Main krv) (c, s) = main_step krv c s"
| "fire (Sigchld ws) (c, s) =
     Some (case c of
             WaitCheck p b \<Rightarrow> (WaitCheck p True, s)
           | WaitBlock p b \<Rightarrow> (WaitBlock p True, s)
           | WaitSuspended p b \<Rightarrow> (WaitCheck p False, sigchld_handler ws s)
           | _ \<Rightarrow> (c, sigchld_handler ws s))"
| "fire (Sigint krv) (c, s) =
     (case sigint_handler krv s of
        Ret s' \<Rightarrow> Some (resume c, s') | Exit x \<Rightarrow> None | Child \<Rightarrow> None | Undef \<Rightarrow> None)"
| "fire (Sigtstp krv) (c, s) =
     (case sigtstp_handler krv s of
        Ret s' \<Rightarrow> Some (resume c, s') | Exit x \<Rightarrow> None | Child \<Rightarrow> None | Undef \<Rightarrow> None)"

inductive shell_reach :: "pc \<times> shell \<Rightarrow> bool" where
  start: "shell_reach (AtPrompt, shell0 v)"
| step: "shell_reach cs \<Longrightarrow> fire ev cs = Some cs' \<Longrightarrow> shell_reach cs'"

text \<open>A sequence of events, from a state on.\<close>

fun run :: "event list \<Rightarrow> pc \<times> shell \<Rightarrow> (pc \<times> shell) option" where
  "run [] cs = Some cs"
| "run (ev # evs) cs = (case fire ev cs of None \<Rightarrow> None | Some cs' \<Rightarrow> run evs cs')"

text \<open>
  What holds between the test of \<^verbatim>\<open>waitfg(p)\<close> and the end of its \<^verbatim>\<open>sigsuspend\<close> as
  long as the table is not written: the foreground pid is \<open>p\<close>. And the events that are
  an arrival of SIGTSTP.
\<close>

definition waiting_inv :: "pc \<times> shell \<Rightarrow> bool" where
  "waiting_inv cs =
     (case fst cs of
        WaitBlock p b \<Rightarrow> fgpid (jobs (snd cs)) = p
      | WaitSuspended p b \<Rightarrow> fgpid (jobs (snd cs)) = p
      | _ \<Rightarrow> True)"

definition is_sigtstp :: "event \<Rightarrow> bool" where
  "is_sigtstp ev = (case ev of Sigtstp krv \<Rightarrow> True | _ \<Rightarrow> False)"

text \<open>
  The main flow from a control point that \<open>begin_line\<close> leads to, up to the end of the
  command or the call of \<^verbatim>\<open>waitfg\<close>, when no handler runs in between.
\<close>

definition uninterrupted :: "int \<Rightarrow> pc \<times> shell \<Rightarrow> (ctl \<times> shell) res" where
  "uninterrupted krv cs =
     (case cs of
        (AtPrompt, s) \<Rightarrow> Ret (Prompt, s)
      | (WaitEnter p, s) \<Rightarrow> Ret (Waitfg p, s)
      | (Announce f, s) \<Rightarrow>
          (case announce f s of
             Ret (c1, s1) \<Rightarrow> Ret (Prompt, s1)
           | Exit x \<Rightarrow> Exit x | Child \<Rightarrow> Child | Undef \<Rightarrow> Undef)
      | (BgfgFound cmd i, s) \<Rightarrow>
          (case bgfg_write cmd i s of
             (BgWritten j, s1) \<Rightarrow>
               (case bg_signal krv j s1 of
                  Ret (c2, s2) \<Rightarrow> Ret (Prompt, snd (bg_print j s2))
                | Exit x \<Rightarrow> Exit x | Child \<Rightarrow> Child | Undef \<Rightarrow> Undef)
           | (FgWritten j, s1) \<Rightarrow>
               (case fg_read j s1 of
                  (FgRead k p, s2) \<Rightarrow>
                    (case fg_signal krv k p s2 of
                       Ret (c3, s3) \<Rightarrow> Ret (Waitfg p, s3)
                     | Exit x \<Rightarrow> Exit x | Child \<Rightarrow> Child | Undef \<Rightarrow> Undef)
                | (c2, s2) \<Rightarrow> Ret (Prompt, s2))
           | (c1, s1) \<Rightarrow> Ret (Prompt, s1))
      | (c, s) \<Rightarrow> Undef)"

text \<open>The number of slots whose state is FG, and the occupied ones among them.\<close>

definition fg_count :: "job_t list \<Rightarrow> nat" where
  "fg_count js = length (filter (\<lambda>j. state j = FG) js)"

definition fg_jobs :: "job_t list \<Rightarrow> job_t list" where
  "fg_jobs js = filter (\<lambda>j. state j = FG \<and> pid j \<noteq> 0) js"

text \<open>
  What holds at each control point as long as no SIGCHLD is handled in \<^verbatim>\<open>do_bgfg\<close> between
  the lookup and the write of the state: the table is well formed and at most one slot is
  FG; no slot is FG at the prompt, in the \<^verbatim>\<open>bg\<close> branch and before an announcement; the
  slot found by the lookup is occupied; and from \<^verbatim>\<open>current_pid = fgpid(jobs)\<close> to the end
  of \<^verbatim>\<open>waitfg\<close> every FG slot holds the pid that is waited for. \<open>lookup_race\<close> tells the
  events excluded, \<open>race_free\<close> the runs without them.
\<close>

definition fg_only :: "int \<Rightarrow> job_t list \<Rightarrow> bool" where
  "fg_only p js \<longleftrightarrow> list_all (\<lambda>j. state j = FG \<longrightarrow> pid j = p) js"

definition fg_inv :: "pc \<times> shell \<Rightarrow> bool" where
  "fg_inv cs \<longleftrightarrow>
     jobs_ok (jobs (snd cs)) \<and> fg_count (jobs (snd cs)) \<le> 1 \<and>
     (case fst cs of
        AtPrompt \<Rightarrow> fg_count (jobs (snd cs)) = 0
      | BgfgFound cmd i \<Rightarrow>
          fg_count (jobs (snd cs)) = 0 \<and> i < length (jobs (snd cs)) \<and> pid (jobs (snd cs) ! i) \<noteq> 0
      | BgWritten i \<Rightarrow> fg_count (jobs (snd cs)) = 0
      | BgSignalled i \<Rightarrow> fg_count (jobs (snd cs)) = 0
      | FgWritten i \<Rightarrow> True
      | FgRead i p \<Rightarrow> fg_only p (jobs (snd cs))
      | Announce f \<Rightarrow> fg_count (jobs (snd cs)) = 0
      | WaitEnter p \<Rightarrow> fg_only p (jobs (snd cs))
      | WaitCheck p b \<Rightarrow> fg_only p (jobs (snd cs))
      | WaitBlock p b \<Rightarrow> fg_only p (jobs (snd cs))
      | WaitSuspended p b \<Rightarrow> fg_only p (jobs (snd cs)))"

definition lookup_race :: "event \<Rightarrow> pc \<Rightarrow> bool" where
  "lookup_race ev c =
     (case ev of
        Sigchld ws \<Rightarrow> (case c of BgfgFound cmd i \<Rightarrow> True | _ \<Rightarrow> False)
      | _ \<Rightarrow> False)"

fun race_free :: "event list \<Rightarrow> pc \<times> shell \<Rightarrow> bool" where
  "race_free [] cs = True"
| "race_free (ev # evs) cs =
     (\<not> lookup_race ev (fst cs) \<and>
      (case fire ev cs of None \<Rightarrow> True | Some cs' \<Rightarrow> race_free evs cs'))"

subsection \<open>Concrete tables and answers of the operating system\<close>

text \<open>A table given by its first slots, the others cleared.\<close>

definition table :: "job_t list \<Rightarrow> job_t list" where
  "table js = js @ replicate (MAXJOBS - length js) \<lparr>pid = 0, jid = 0, state = UNDEF, cmdline = []\<rparr>"

definition sh :: "job_t list \<Rightarrow> string \<Rightarrow> (int \<times> signal) list \<Rightarrow> shell" where
  "sh js t ks = \<lparr>jobs = table js, verbose = False, out = t, kills = ks\<rparr>"

text \<open>\<^verbatim>\<open>fork\<close> returns \<open>f\<close>; \<^verbatim>\<open>kill\<close> and \<^verbatim>\<open>sigprocmask\<close> succeed.\<close>

definition forks :: "int \<Rightarrow> env" where
  "forks f = \<lparr>fork_rv = f, kill_rv = 0, sigprocmask_rv = 0\<rparr>"

text \<open>Two jobs: \<^verbatim>\<open>sleep 5 &\<close> with pid 100 and \<^verbatim>\<open>cat\<close> with pid 101.\<close>

definition job_sleep :: "int \<Rightarrow> job_t" where
  "job_sleep st = \<lparr>pid = 100, jid = 1, state = st, cmdline = ''sleep 5 &'' @ [NL]\<rparr>"

definition job_cat :: "int \<Rightarrow> job_t" where
  "job_cat st = \<lparr>pid = 101, jid = 2, state = st, cmdline = ''cat'' @ [NL]\<rparr>"

definition sleep_launched :: string where
  "sleep_launched = ''[1] (100) Running sleep 5 &'' @ [NL]"

text \<open>
  Three background jobs \<^verbatim>\<open>sleep 5 &\<close>, and the events of a session: they are started
  with the pids 100, 101 and 102; then \<^verbatim>\<open>fg %1\<close> is typed, and SIGCHLD for the pid 100
  arrives in \<^verbatim>\<open>do_bgfg\<close> between the lookup and \<^verbatim>\<open>job->state = FG\<close>; then
  \<^verbatim>\<open>fg %2\<close> and \<^verbatim>\<open>fg %3\<close> are typed.
\<close>

definition job_bg :: "int \<Rightarrow> int \<Rightarrow> int \<Rightarrow> job_t" where
  "job_bg p n st = \<lparr>pid = p, jid = n, state = st, cmdline = ''sleep 5 &'' @ [NL]\<rparr>"

definition three_launched :: string where
  "three_launched = ''[1] (100) Running sleep 5 &'' @ [NL] @
                    ''[2] (101) Running sleep 5 &'' @ [NL] @
                    ''[3] (102) Running sleep 5 &'' @ [NL]"

definition fg_race :: "event list" where
  "fg_race =
     [Line (forks 100) (''sleep 5 &'' @ [NL]), Main 0,
      Line (forks 101) (''sleep 5 &'' @ [NL]), Main 0,
      Line (forks 102) (''sleep 5 &'' @ [NL]), Main 0,
      Line (forks 0) (''fg %1'' @ [NL]), Sigchld [100, 0], Main 0, Main 0,
      Line (forks 0) (''fg %2'' @ [NL]), Main 0, Main 0,
      Line (forks 0) (''fg %3'' @ [NL]), Main 0, Main 0]"

text \<open>
  \<^verbatim>\<open>sleep 5 &\<close> and \<^verbatim>\<open>cat\<close> are started, the suspend key arrives while \<^verbatim>\<open>waitfg\<close>
  sleeps in \<^verbatim>\<open>sigsuspend\<close>, and \<^verbatim>\<open>fg %1\<close> is typed at the next prompt.
\<close>

definition stop_and_resume :: "event list" where
  "stop_and_resume =
     [Line (forks 100) (''sleep 5 &'' @ [NL]), Main 0,
      Line (forks 101) (''cat'' @ [NL]), Main 0, Main 0, Main 0,
      Sigtstp 0, Main 0,
      Line (forks 0) (''fg %1'' @ [NL]), Main 0, Main 0, Main 0]"



text \<open>
  \<^verbatim>\<open>sleep 5 &\<close> and \<^verbatim>\<open>cat\<close> are started; the main flow enters \<^verbatim>\<open>waitfg(101)\<close>, blocks
  SIGCHLD and finds \<^verbatim>\<open>pid == fgpid(jobs)\<close>. Then a signal arrives before \<^verbatim>\<open>sigsuspend\<close>
  is called, and the main flow goes on.
\<close>

definition wait_until_test :: "event list" where
  "wait_until_test =
     [Line (forks 100) (''sleep 5 &'' @ [NL]), Main 0,
      Line (forks 101) (''cat'' @ [NL]), Main 0, Main 0]"

text \<open>The pids of the occupied slots.\<close>

definition live_pids :: "job_t list \<Rightarrow> int set" where
  "live_pids js = pid ` {j \<in> set js. pid j \<noteq> 0}"

text \<open>
  The argument of \<^verbatim>\<open>bg\<close> or \<^verbatim>\<open>fg\<close> names no job of the table: a jid (after \<open>%\<close>)
  that no occupied slot has, or a pid that no occupied slot has.
\<close>

definition names_no_job :: "job_t list \<Rightarrow> string \<Rightarrow> bool" where
  "names_no_job js a \<longleftrightarrow>
     (if a \<noteq> [] \<and> hd a = CHR ''%''
      then (case atoi (tl a) of None \<Rightarrow> False | Some n \<Rightarrow> n \<notin> live_jids js)
      else (case atoi a of None \<Rightarrow> False | Some p \<Rightarrow> p \<notin> live_pids js))"

text \<open>No two occupied slots hold the same pid.\<close>

definition pids_distinct :: "job_t list \<Rightarrow> bool" where
  "pids_distinct js \<longleftrightarrow> distinct (map pid (filter (\<lambda>j. pid j \<noteq> 0) js))"

section \<open>Redirection in the child\<close>

text \<open>
  The loop of \<^verbatim>\<open>eval\<close> that the forked child runs over its arguments before
  \<^verbatim>\<open>execve\<close>. It is given the array and the \<^verbatim>\<open>argc\<close> it starts from.
  \<^verbatim>\<open>check_pipeline\<close>, which runs before it, and the rest of the child follow it below.

  \<^verbatim>\<open>char *argv[MAXARGS]\<close> in the child: a cell holds a string, the null pointer, or
  whatever the uninitialised array held (\<open>Junk\<close>). \<^verbatim>\<open>parseline\<close> fills the cells
  \<open>0..argc-1\<close> and sets \<^verbatim>\<open>argv[argc]\<close> to \<^verbatim>\<open>NULL\<close>.
\<close>

datatype ptr = Str string | Null | Junk

text \<open>
  The system calls of the child, with their arguments. The flag word of \<^verbatim>\<open>open\<close> is the
  list of the flags that are or-ed together, the mode likewise. \<open>Pipe r w\<close> is a call of
  \<^verbatim>\<open>pipe\<close> that stored the descriptors \<open>r\<close> and \<open>w\<close>, \<open>Fork p\<close> a call of \<^verbatim>\<open>fork\<close>
  that returned \<open>p\<close>, \<open>Wait\<close> is \<^verbatim>\<open>wait(NULL)\<close>, and \<open>Execve\<close> holds the path and the
  cells of \<^verbatim>\<open>argv\<close> before the first null pointer.
\<close>

datatype oflag = O_RDONLY | O_RDWR | O_CREAT | O_TRUNC

datatype mode_bit = S_IRUSR | S_IWUSR

datatype syscall =
    Open string "oflag list" "mode_bit list"
  | Dup2 int int
  | Pipe int int
  | Fork int
  | Close int
  | Wait
  | Setpgid int int
  | Execve string "ptr list"

record child =
  args :: "ptr list"
  argc :: int
  calls :: "syscall list"

definition child_of :: "string list \<Rightarrow> child" where
  "child_of tokens =
     \<lparr>args = map Str tokens @ Null # replicate (MAXARGS - length tokens - 1) Junk,
      argc = int (length tokens), calls = []\<rparr>"

text \<open>
  \<^verbatim>\<open>redirect_stream(old, new)\<close>; \<open>rv\<close> is what \<^verbatim>\<open>dup2\<close> returns. \<^verbatim>\<open>unix_error\<close> ends
  the process with status 1.
\<close>

definition redirect_stream :: "int \<Rightarrow> child \<Rightarrow> int \<Rightarrow> int \<Rightarrow> child res" where
  "redirect_stream rv c old new =
     (if old = - 1 then Exit 1
      else if rv = - 1 then Exit 1
      else Ret (c\<lparr>calls := calls c @ [Dup2 old new]\<rparr>))"

text \<open>
  \<^verbatim>\<open>remove_args(arr, arr_l, index, num_args)\<close>: for \<open>i\<close> from \<open>index\<close> below
  \<open>arr_l\<close>, \<^verbatim>\<open>arr[i] = arr[i + num_args]\<close>; then \<^verbatim>\<open>arr[index + num_args] = 0x0\<close>. An
  access beyond the array is \<open>None\<close>.
\<close>

fun remove_args_loop :: "ptr list \<Rightarrow> nat \<Rightarrow> nat \<Rightarrow> nat \<Rightarrow> ptr list option" where
  "remove_args_loop arr i 0 n = Some arr"
| "remove_args_loop arr i (Suc k) n =
     (if i + n < length arr then remove_args_loop (arr[i := arr ! (i + n)]) (Suc i) k n
      else None)"

definition remove_args :: "ptr list \<Rightarrow> nat \<Rightarrow> nat \<Rightarrow> nat \<Rightarrow> ptr list option" where
  "remove_args arr arr_l index n =
     (case remove_args_loop arr index (arr_l - index) n of
        None \<Rightarrow> None
      | Some a \<Rightarrow> if index + n < length a then Some (a[index + n := Null]) else None)"

text \<open>\<^verbatim>\<open>remove_args(argv, argc, i, 2); argc -= 2;\<close> at the end of either branch.\<close>

definition drop_redirect :: "nat \<Rightarrow> child \<Rightarrow> child res" where
  "drop_redirect i c =
     (case remove_args (args c) (nat (argc c)) i 2 of
        None \<Rightarrow> Undef
      | Some a \<Rightarrow> Ret (c\<lparr>args := a, argc := argc c - 2\<rparr>))"

text \<open>
  One pass through the body of the loop \<^verbatim>\<open>for (i = 0; i < argc - 1; i++)\<close> of \<^verbatim>\<open>eval\<close>.
  \<open>open_rv\<close> gives what \<^verbatim>\<open>open\<close> returns for a path (a descriptor, or \<open>-1\<close>) and
  \<open>dup2_rv\<close> what \<^verbatim>\<open>dup2\<close> returns. \<^verbatim>\<open>strcmp\<close> on a pointer that is null or
  uninitialised has no defined behaviour; \<^verbatim>\<open>open\<close> on the null pointer fails, and
  \<^verbatim>\<open>redirect_stream\<close> then ends the process.
\<close>

definition redirect_step ::
  "(string \<Rightarrow> int) \<Rightarrow> (int \<Rightarrow> int \<Rightarrow> int) \<Rightarrow> nat \<Rightarrow> child \<Rightarrow> child res" where
  "redirect_step open_rv dup2_rv i c =
     (if length (args c) \<le> i then Undef
      else (case args c ! i of
              Str arg \<Rightarrow>
                if arg = ''<'' then
                  (if length (args c) \<le> i + 1 then Undef
                   else (case args c ! (i + 1) of
                           Str path \<Rightarrow>
                             (case redirect_stream (dup2_rv (open_rv path) 0)
                                     (c\<lparr>calls := calls c @ [Open path [O_RDONLY] []]\<rparr>)
                                     (open_rv path) 0 of
                                Ret c1 \<Rightarrow> drop_redirect i c1
                              | Exit x \<Rightarrow> Exit x | Child \<Rightarrow> Child | Undef \<Rightarrow> Undef)
                         | Null \<Rightarrow> Exit 1
                         | Junk \<Rightarrow> Undef))
                else if arg = ''>'' then
                  (if length (args c) \<le> i + 1 then Undef
                   else (case args c ! (i + 1) of
                           Str path \<Rightarrow>
                             (case redirect_stream (dup2_rv (open_rv path) 1)
                                     (c\<lparr>calls := calls c @
                                          [Open path [O_RDWR, O_CREAT] [S_IRUSR, S_IWUSR]]\<rparr>)
                                     (open_rv path) 1 of
                                Ret c1 \<Rightarrow>
                                  (case redirect_stream (dup2_rv (open_rv path) 2) c1
                                          (open_rv path) 2 of
                                     Ret c2 \<Rightarrow> drop_redirect i c2
                                   | Exit x \<Rightarrow> Exit x | Child \<Rightarrow> Child | Undef \<Rightarrow> Undef)
                              | Exit x \<Rightarrow> Exit x | Child \<Rightarrow> Child | Undef \<Rightarrow> Undef)
                         | Null \<Rightarrow> Exit 1
                         | Junk \<Rightarrow> Undef))
                else Ret c
            | Null \<Rightarrow> Undef
            | Junk \<Rightarrow> Undef))"

text \<open>The loop, from \<open>i\<close> on.\<close>

function eval_redirect ::
  "(string \<Rightarrow> int) \<Rightarrow> (int \<Rightarrow> int \<Rightarrow> int) \<Rightarrow> nat \<Rightarrow> child \<Rightarrow> child res" where
  "eval_redirect open_rv dup2_rv i c =
     (if int i < argc c - 1
      then (case redirect_step open_rv dup2_rv i c of
              Ret c' \<Rightarrow> eval_redirect open_rv dup2_rv (Suc i) c'
            | Exit x \<Rightarrow> Exit x
            | Child \<Rightarrow> Child
            | Undef \<Rightarrow> Undef)
      else Ret c)"
  by pat_completeness auto

termination
proof (relation "measure (\<lambda>(open_rv, dup2_rv, i, c). nat (argc c - 1 - int i))", goal_cases)
  case 1
  show ?case by simp
next
  case (2 open_rv dup2_rv i c c')
  have d: "argc y \<le> argc x" if "drop_redirect i x = Ret y" for x y
    using that by (auto simp: drop_redirect_def split: option.splits)
  have r: "argc y = argc x" if "redirect_stream rv x old new = Ret y" for rv x old new y
    using that by (auto simp: redirect_stream_def split: if_splits)
  from 2(2) have "argc c' \<le> argc c"
    by (auto simp: redirect_step_def split: if_splits ptr.splits res.splits dest!: d r)
  with 2(1) show ?case by simp
qed

declare eval_redirect.simps [simp del]

subsection \<open>Pipelines and the start of the program\<close>







section \<open>Properties of the job table\<close>

lemmas state_defs = UNDEF_def FG_def BG_def ST_def

lemma mark_taken_Some:
  "list_all (\<lambda>j. 0 \<le> jid j \<and> nat (jid j) < length taken) js \<Longrightarrow>
   \<exists>t. mark_taken js taken = Some t \<and> length t = length taken \<and>
       (\<forall>n<length taken. t ! n \<longleftrightarrow> taken ! n \<or> (\<exists>j\<in>set js. jid j \<noteq> 0 \<and> nat (jid j) = n))"
proof (induction js arbitrary: taken)
  case Nil
  then show ?case by simp
next
  case (Cons j js)
  show ?case
  proof (cases "jid j = 0")
    case True
    with Cons.prems Cons.IH [of taken] show ?thesis by auto
  next
    case False
    let ?t = "taken[nat (jid j) := True]"
    from Cons.prems have b: "0 \<le> jid j" "nat (jid j) < length taken"
      and r: "list_all (\<lambda>j. 0 \<le> jid j \<and> nat (jid j) < length ?t) js" by simp_all
    from Cons.IH [OF r] obtain t where t: "mark_taken js ?t = Some t" "length t = length taken"
      "\<forall>n<length taken. t ! n \<longleftrightarrow> ?t ! n \<or> (\<exists>j\<in>set js. jid j \<noteq> 0 \<and> nat (jid j) = n)"
      by auto
    have "mark_taken (j # js) taken = Some t" using False b t(1) by simp
    moreover have "\<forall>n<length taken. t ! n \<longleftrightarrow> taken ! n \<or> (\<exists>j\<in>set (j # js). jid j \<noteq> 0 \<and> nat (jid j) = n)"
      using t(3) False b by (auto simp: nth_list_update)
    ultimately show ?thesis using t(2) by blast
  qed
qed

lemma slot_ok_live: "slot_ok j \<Longrightarrow> jid j \<noteq> 0 \<longleftrightarrow> pid j \<noteq> 0"
  by (auto simp: slot_ok_def cleared_def)

lemma slot_ok_jid: "slot_ok j \<Longrightarrow> 0 \<le> jid j \<and> jid j \<le> int MAXJOBS"
  by (auto simp: slot_ok_def cleared_def)

lemma live_jids_range: "list_all slot_ok js \<Longrightarrow> live_jids js \<subseteq> {1..int MAXJOBS}"
  by (auto simp: live_jids_def list_all_iff slot_ok_def cleared_def)

lemma freejid_find:
  assumes "list_all slot_ok js"
  shows "freejid js =
         Some (case find (\<lambda>i. int i \<notin> live_jids js) [1..<Suc MAXJOBS] of
                 None \<Rightarrow> 0 | Some i \<Rightarrow> int i)"
proof -
  let ?t0 = "replicate (Suc MAXJOBS) False"
  have "list_all (\<lambda>j. 0 \<le> jid j \<and> nat (jid j) < length ?t0) js"
    using assms by (auto simp: list_all_iff dest!: slot_ok_jid)
  from mark_taken_Some [OF this] obtain t where t: "mark_taken js ?t0 = Some t"
    "\<forall>n<Suc MAXJOBS. t ! n \<longleftrightarrow> ?t0 ! n \<or> (\<exists>j\<in>set js. jid j \<noteq> 0 \<and> nat (jid j) = n)"
    by (auto simp del: replicate_Suc)
  have t2: "\<forall>n<Suc MAXJOBS. t ! n \<longleftrightarrow> (\<exists>j\<in>set js. jid j \<noteq> 0 \<and> nat (jid j) = n)"
  proof (intro allI impI)
    fix n assume n: "n < Suc MAXJOBS"
    then have "?t0 ! n = False" by (simp only: nth_replicate)
    with t(2) n show "t ! n \<longleftrightarrow> (\<exists>j\<in>set js. jid j \<noteq> 0 \<and> nat (jid j) = n)" by blast
  qed
  have "\<not> t ! i \<longleftrightarrow> int i \<notin> live_jids js" if "i \<in> set [1..<Suc MAXJOBS]" for i
  proof -
    from that have i: "i < Suc MAXJOBS" "1 \<le> i" by auto
    have "(\<exists>j\<in>set js. jid j \<noteq> 0 \<and> nat (jid j) = i) \<longleftrightarrow> int i \<in> live_jids js"
    proof
      assume "\<exists>j\<in>set js. jid j \<noteq> 0 \<and> nat (jid j) = i"
      then obtain j where j: "j \<in> set js" "jid j \<noteq> 0" "nat (jid j) = i" by blast
      with assms have "slot_ok j" by (simp add: list_all_iff)
      with j slot_ok_live [of j] slot_ok_jid [of j] have "pid j \<noteq> 0" "jid j = int i" by auto
      with j(1) show "int i \<in> live_jids js" by (force simp: live_jids_def)
    next
      assume "int i \<in> live_jids js"
      then obtain j where j: "j \<in> set js" "jid j = int i" by (auto simp: live_jids_def)
      from j(2) i have "jid j \<noteq> 0 \<and> nat (jid j) = i" by simp
      with j(1) show "\<exists>j\<in>set js. jid j \<noteq> 0 \<and> nat (jid j) = i" by blast
    qed
    with t2 i show ?thesis by simp
  qed
  then have "find (\<lambda>i. \<not> t ! i) [1..<Suc MAXJOBS] = find (\<lambda>i. int i \<notin> live_jids js) [1..<Suc MAXJOBS]"
    by (intro find_cong) (auto simp del: upt_Suc)
  with t(1) show ?thesis by (simp add: freejid_def del: upt_Suc replicate_Suc)
qed

lemma freejid_cases:
  assumes "list_all slot_ok js"
  shows "(freejid js = Some 0 \<and> {1..int MAXJOBS} \<subseteq> live_jids js) \<or>
         (\<exists>n. freejid js = Some n \<and> n \<le> int MAXJOBS \<and> smallest_free js n)"
proof (cases "find (\<lambda>i. int i \<notin> live_jids js) [1..<Suc MAXJOBS]")
  case None
  then have "\<forall>i. 1 \<le> i \<and> i \<le> MAXJOBS \<longrightarrow> int i \<in> live_jids js"
    by (auto simp: find_None_iff simp del: upt_Suc)
  then have "{1..int MAXJOBS} \<subseteq> live_jids js"
  proof -
    assume a: "\<forall>i. 1 \<le> i \<and> i \<le> MAXJOBS \<longrightarrow> int i \<in> live_jids js"
    show ?thesis
    proof
      fix k assume "k \<in> {1..int MAXJOBS}"
      then have "1 \<le> nat k \<and> nat k \<le> MAXJOBS" "int (nat k) = k" by auto
      with a [rule_format, of "nat k"] show "k \<in> live_jids js" by simp
    qed
  qed
  with None freejid_find [OF assms] show ?thesis by simp
next
  case (Some i)
  then obtain m where m: "m < length [1..<Suc MAXJOBS]" "[1..<Suc MAXJOBS] ! m = i"
    "int i \<notin> live_jids js" "\<forall>l<m. int ([1..<Suc MAXJOBS] ! l) \<in> live_jids js"
    by (auto simp: find_Some_iff simp del: upt_Suc)
  then have i: "i = Suc m" "m < MAXJOBS" by (auto simp del: upt_Suc)
  have "k \<in> live_jids js" if "1 \<le> k" "k < int i" for k
  proof -
    from that i have l: "nat k - 1 < m" by auto
    with i have "[1..<Suc MAXJOBS] ! (nat k - 1) = nat k" using that by (simp del: upt_Suc)
    with m(4) l that show ?thesis by force
  qed
  with m(3) i have "smallest_free js (int i)" "int i \<le> int MAXJOBS"
    by (auto simp: smallest_free_def)
  with Some freejid_find [OF assms] show ?thesis by simp
qed

lemma addjob_loop_split:
  "\<exists>j\<in>set js. pid j = 0 \<Longrightarrow>
   \<exists>pre c post. js = pre @ c # post \<and> pid c = 0 \<and> (\<forall>j\<in>set pre. pid j \<noteq> 0) \<and>
     addjob_loop js new = Some (pre @ new # post)"
proof (induction js)
  case Nil
  then show ?case by simp
next
  case (Cons j js)
  show ?case
  proof (cases "pid j = 0")
    case True
    then have "j # js = [] @ j # js \<and> pid j = 0 \<and> (\<forall>j\<in>set []. pid j \<noteq> 0) \<and>
      addjob_loop (j # js) new = Some ([] @ new # js)" by simp
    then show ?thesis by blast
  next
    case False
    with Cons.prems have "\<exists>j\<in>set js. pid j = 0" by auto
    from Cons.IH [OF this] obtain pre c post where
      "js = pre @ c # post" "pid c = 0" "\<forall>j\<in>set pre. pid j \<noteq> 0"
      "addjob_loop js new = Some (pre @ new # post)" by blast
    with False have "j # js = (j # pre) @ c # post \<and> pid c = 0 \<and>
      (\<forall>j\<in>set (j # pre). pid j \<noteq> 0) \<and>
      addjob_loop (j # js) new = Some ((j # pre) @ new # post)" by simp
    then show ?thesis by blast
  qed
qed

lemma addjob_loop_None: "\<forall>j\<in>set js. pid j \<noteq> 0 \<Longrightarrow> addjob_loop js new = None"
  by (induction js) auto

lemma live_jids_filter: "live_jids js = set (map jid (filter (\<lambda>j. pid j \<noteq> 0) js))"
  by (auto simp: live_jids_def)

lemma full_iff:
  assumes "jobs_ok js"
  shows "{1..int MAXJOBS} \<subseteq> live_jids js \<longleftrightarrow> (\<forall>j\<in>set js. pid j \<noteq> 0)"
proof
  let ?L = "filter (\<lambda>j. pid j \<noteq> 0) js"
  from assms have d: "distinct (map jid ?L)" and len: "length js = MAXJOBS"
    and ok: "list_all slot_ok js" by (simp_all add: jobs_ok_def)
  have c: "card (live_jids js) = length ?L"
    using distinct_card [OF d] by (simp add: live_jids_filter)
  have fin: "finite (live_jids js)" by (simp add: live_jids_filter)
  {
    assume "{1..int MAXJOBS} \<subseteq> live_jids js"
    then have "card {1..int MAXJOBS} \<le> card (live_jids js)" using fin by (rule card_mono [rotated])
    with c len have ge: "length js \<le> length ?L" by simp
    show "\<forall>j\<in>set js. pid j \<noteq> 0"
    proof (rule ccontr)
      assume "\<not> (\<forall>j\<in>set js. pid j \<noteq> 0)"
      then obtain j where "j \<in> set js" "\<not> pid j \<noteq> 0" by blast
      then have "length ?L < length js" by (rule length_filter_less)
      with ge show False by simp
    qed
  }
  {
    assume "\<forall>j\<in>set js. pid j \<noteq> 0"
    then have "?L = js" by (simp add: filter_id_conv)
    with c len have "card (live_jids js) = card {1..int MAXJOBS}" by simp
    moreover have "live_jids js \<subseteq> {1..int MAXJOBS}" using ok by (rule live_jids_range)
    ultimately have "live_jids js = {1..int MAXJOBS}" by (intro card_subset_eq) auto
    then show "{1..int MAXJOBS} \<subseteq> live_jids js" by simp
  }
qed

lemma live_part_cong:
  "map (\<lambda>j. (pid j, jid j)) js = map (\<lambda>j. (pid j, jid j)) js' \<Longrightarrow>
   map jid (filter (\<lambda>j. pid j \<noteq> 0) js) = map jid (filter (\<lambda>j. pid j \<noteq> 0) js')"
proof (induction js arbitrary: js')
  case Nil
  then show ?case by simp
next
  case (Cons j js)
  then obtain k ks where "js' = k # ks" by (cases js') auto
  with Cons show ?case by auto
qed

lemma jobs_ok_add:
  assumes ok: "jobs_ok (pre @ c # post)" and c: "pid c = 0" and p: "1 \<le> p"
    and n: "1 \<le> n" "n \<le> int MAXJOBS" "n \<notin> live_jids (pre @ c # post)"
  shows "jobs_ok (pre @ \<lparr>pid = p, jid = n, state = st, cmdline = cl\<rparr> # post)"
proof -
  from n(3) c have "n \<notin> jid ` {j \<in> set pre. pid j \<noteq> 0}" "n \<notin> jid ` {j \<in> set post. pid j \<noteq> 0}"
    by (auto simp: live_jids_def)
  with ok c p n(1,2) show ?thesis
    by (auto simp: jobs_ok_def slot_ok_def)
qed

lemma jobs_ok_clear:
  assumes "jobs_ok (pre @ c # post)"
  shows "jobs_ok (pre @ clearjob c # post)"
  using assms by (auto simp: jobs_ok_def slot_ok_def cleared_def clearjob_def)

lemma deletejob_loop_cases:
  "deletejob_loop js p = (0, js) \<or>
   (\<exists>pre c post. js = pre @ c # post \<and> pid c = p \<and> (\<forall>j\<in>set pre. pid j \<noteq> p) \<and>
      deletejob_loop js p = (1, pre @ clearjob c # post))"
proof (induction js)
  case Nil
  then show ?case by simp
next
  case (Cons j js)
  show ?case
  proof (cases "pid j = p")
    case True
    then have "j # js = [] @ j # js \<and> pid j = p \<and> (\<forall>j\<in>set []. pid j \<noteq> p) \<and>
      deletejob_loop (j # js) p = (1, [] @ clearjob j # js)" by simp
    then show ?thesis by blast
  next
    case False
    from Cons.IH show ?thesis
    proof
      assume "deletejob_loop js p = (0, js)"
      with False show ?thesis by simp
    next
      assume "\<exists>pre c post. js = pre @ c # post \<and> pid c = p \<and> (\<forall>j\<in>set pre. pid j \<noteq> p) \<and>
        deletejob_loop js p = (1, pre @ clearjob c # post)"
      then obtain pre c post where "js = pre @ c # post" "pid c = p" "\<forall>j\<in>set pre. pid j \<noteq> p"
        "deletejob_loop js p = (1, pre @ clearjob c # post)" by blast
      with False have "j # js = (j # pre) @ c # post \<and> pid c = p \<and>
        (\<forall>j\<in>set (j # pre). pid j \<noteq> p) \<and>
        deletejob_loop (j # js) p = (1, (j # pre) @ clearjob c # post)" by simp
      then show ?thesis by blast
    qed
  qed
qed

lemma jobs_ok_deletejob: "jobs_ok js \<Longrightarrow> jobs_ok (snd (deletejob js p))"
  using deletejob_loop_cases [of js p] by (auto simp: deletejob_def intro: jobs_ok_clear)

lemma jobs_ok_init: "jobs_ok (initjobs jobs0)"
  by (simp add: jobs_ok_def initjobs_def jobs0_def clearjob_def slot_ok_def cleared_def
      list_all_iff)

lemma addjob_cases:
  assumes ok: "jobs_ok js" and p: "1 \<le> p"
  shows "(if \<forall>j\<in>set js. pid j \<noteq> 0
          then addjob v js p st cl = Some (0, js, too_many_msg)
          else \<exists>pre c post n. js = pre @ c # post \<and> (\<forall>j\<in>set pre. pid j \<noteq> 0) \<and> pid c = 0 \<and>
                 smallest_free js n \<and> n \<le> int MAXJOBS \<and>
                 addjob v js p st cl =
                   Some (1, pre @ \<lparr>pid = p, jid = n, state = st, cmdline = cl\<rparr> # post,
                         if v then added_msg \<lparr>pid = p, jid = n, state = st, cmdline = cl\<rparr> else []))"
proof -
  from ok have sl: "list_all slot_ok js" by (simp add: jobs_ok_def)
  show ?thesis
  proof (cases "\<forall>j\<in>set js. pid j \<noteq> 0")
    case True
    with full_iff [OF ok] have full: "{1..int MAXJOBS} \<subseteq> live_jids js" by simp
    have "freejid js = Some 0"
      using freejid_cases [OF sl] full by (auto simp: smallest_free_def MAXJOBS_def)
    with True p show ?thesis by (simp add: addjob_def)
  next
    case False
    with full_iff [OF ok] have nf: "\<not> {1..int MAXJOBS} \<subseteq> live_jids js" by simp
    with freejid_cases [OF sl] obtain n where n: "freejid js = Some n" "n \<le> int MAXJOBS"
      "smallest_free js n" by blast
    then have n0: "n \<noteq> 0" by (auto simp: smallest_free_def)
    from False have "\<exists>j\<in>set js. pid j = 0" by blast
    from addjob_loop_split [OF this, of "\<lparr>pid = p, jid = n, state = st, cmdline = cl\<rparr>"]
    obtain pre c post where s: "js = pre @ c # post" "pid c = 0" "\<forall>j\<in>set pre. pid j \<noteq> 0"
      "addjob_loop js \<lparr>pid = p, jid = n, state = st, cmdline = cl\<rparr> = Some (pre @ \<lparr>pid = p, jid = n, state = st, cmdline = cl\<rparr> # post)"
      by blast
    have "addjob v js p st cl =
       Some (1, pre @ \<lparr>pid = p, jid = n, state = st, cmdline = cl\<rparr> # post,
             if v then added_msg \<lparr>pid = p, jid = n, state = st, cmdline = cl\<rparr> else [])"
      using p n(1) n0 s(4) by (simp add: addjob_def Let_def)
    with s(1-3) n(2,3) False show ?thesis by (simp only: if_False) blast
  qed
qed

lemma jobs_ok_addjob:
  assumes ok: "jobs_ok js" and a: "addjob v js p st cl = Some (r, js', msg)"
  shows "jobs_ok js'"
proof (cases "p < 1")
  case True
  with a ok show ?thesis by (simp add: addjob_def)
next
  case False
  then have p: "1 \<le> p" by simp
  show ?thesis
  proof (cases "\<forall>j\<in>set js. pid j \<noteq> 0")
    case True
    with addjob_cases [OF ok p, of v st cl] a ok show ?thesis by simp
  next
    case False
    with addjob_cases [OF ok p, of v st cl] obtain pre c post n where
      s: "js = pre @ c # post" "pid c = 0" "smallest_free js n" "n \<le> int MAXJOBS"
      "addjob v js p st cl = Some (1, pre @ \<lparr>pid = p, jid = n, state = st, cmdline = cl\<rparr> # post,
                         if v then added_msg \<lparr>pid = p, jid = n, state = st, cmdline = cl\<rparr> else [])"
      by (simp only: if_False) blast
    from s(3) have "1 \<le> n" "n \<notin> live_jids js" by (simp_all add: smallest_free_def)
    with jobs_ok_add [of pre c post p n st cl] ok s(1,2,4) p
    have "jobs_ok (pre @ \<lparr>pid = p, jid = n, state = st, cmdline = cl\<rparr> # post)" by simp
    with a s(5) show ?thesis by simp
  qed
qed

lemma table_reach_ok: "table_reach js \<Longrightarrow> jobs_ok js"
proof (induction rule: table_reach.induct)
  case init
  show ?case by (rule jobs_ok_init)
next
  case (add js v p st cl r js' msg)
  then show ?case by (blast intro: jobs_ok_addjob)
next
  case (del js p r js')
  with jobs_ok_deletejob [of js p] show ?case by simp
qed

lemma table_reach_fill_table: "table_reach js \<Longrightarrow> table_reach (fill_table n js)"
proof (induction n)
  case 0
  then show ?case by simp
next
  case (Suc n)
  then show ?case by (auto split: option.splits intro: table_reach.add)
qed

text \<open>
  C2. On every table built by insertions and removals, an insertion with a positive pid
  either finds all \<open>MAXJOBS\<close> slots occupied, and then fails with the message
  "Tried to create too many js" and stores nothing, or it stores the job in the first
  free slot under the smallest positive jid that no occupied slot uses, which is at most
  \<open>MAXJOBS\<close>.
\<close>

theorem addjob_smallest_free_jid:
  assumes "table_reach js" and "1 \<le> p"
  shows "length js = MAXJOBS \<and>
         (if \<forall>j\<in>set js. pid j \<noteq> 0
          then addjob v js p st cl = Some (0, js, too_many_msg)
          else \<exists>pre c post n. js = pre @ c # post \<and> (\<forall>j\<in>set pre. pid j \<noteq> 0) \<and> pid c = 0 \<and>
                 smallest_free js n \<and> n \<le> int MAXJOBS \<and>
                 addjob v js p st cl =
                   Some (1, pre @ \<lparr>pid = p, jid = n, state = st, cmdline = cl\<rparr> # post,
                         if v then added_msg \<lparr>pid = p, jid = n, state = st, cmdline = cl\<rparr> else []))"
proof -
  from assms(1) have ok: "jobs_ok js" by (rule table_reach_ok)
  then have "length js = MAXJOBS" by (simp add: jobs_ok_def)
  with addjob_cases [OF ok assms(2), of v st cl] show ?thesis by simp
qed

lemma fill_table_full: "list_all (\<lambda>j. pid j \<noteq> 0) (fill_table 16 (initjobs jobs0))"
  by code_simp

theorem addjob_smallest_free_jid_witness:
  "table_reach (fill_table 16 (initjobs jobs0)) \<and> (1::int) \<le> 7 \<and>
   addjob False (fill_table 16 (initjobs jobs0)) 7 FG ''ls'' = Some (0, fill_table 16 (initjobs jobs0), too_many_msg) \<and>
   length (initjobs jobs0) = MAXJOBS \<and>
   (\<exists>pre c post n. initjobs jobs0 = pre @ c # post \<and> pid c = 0 \<and>
      smallest_free (initjobs jobs0) n \<and> n \<le> int MAXJOBS \<and>
      addjob False (initjobs jobs0) 7 FG ''ls'' =
        Some (1, pre @ \<lparr>pid = 7, jid = n, state = FG, cmdline = ''ls''\<rparr> # post, []))"
proof -
  have h: "(1::int) \<le> 7" by simp
  have r: "table_reach (fill_table 16 (initjobs jobs0))"
    by (rule table_reach_fill_table) (rule table_reach.init)
  have full: "\<forall>j\<in>set (fill_table 16 (initjobs jobs0)). pid j \<noteq> 0"
    using fill_table_full by (simp only: list_all_iff)
  have a: "addjob False (fill_table 16 (initjobs jobs0)) 7 FG ''ls'' = Some (0, fill_table 16 (initjobs jobs0), too_many_msg)"
    using addjob_smallest_free_jid [OF r h, of False FG "''ls''"] full by simp
  have e: "\<not> (\<forall>j\<in>set (initjobs jobs0). pid j \<noteq> 0)"
    by (simp add: initjobs_def jobs0_def clearjob_def MAXJOBS_def)
  have b: "length (initjobs jobs0) = MAXJOBS \<and>
   (\<exists>pre c post n. initjobs jobs0 = pre @ c # post \<and> pid c = 0 \<and>
      smallest_free (initjobs jobs0) n \<and> n \<le> int MAXJOBS \<and>
      addjob False (initjobs jobs0) 7 FG ''ls'' =
        Some (1, pre @ \<lparr>pid = 7, jid = n, state = FG, cmdline = ''ls''\<rparr> # post, []))"
    using addjob_smallest_free_jid [OF table_reach.init h, of False FG "''ls''"] e
    by (simp only: if_False) blast
  from r a b show ?thesis by simp
qed

text \<open>
  C10. For a pid below 1, \<^verbatim>\<open>addjob\<close> fails and \<^verbatim>\<open>deletejob\<close> returns 0, both leaving
  every slot as it was, and \<^verbatim>\<open>getjobpid\<close> returns no job: a cleared slot, whose pid is
  0, is never matched through the pid-keyed operations.
\<close>

theorem nonpositive_pid_rejected:
  "p < 1 \<Longrightarrow>
   addjob v js p st cl = Some (0, js, []) \<and> deletejob js p = (0, js) \<and>
   getjobpid js p = None"
  by (simp add: addjob_def deletejob_def getjobpid_def)

theorem nonpositive_pid_rejected_witness:
  "(0::int) < 1 \<and>
   addjob False (initjobs jobs0) 0 FG ''ls'' = Some (0, initjobs jobs0, []) \<and>
   deletejob (initjobs jobs0) 0 = (0, initjobs jobs0) \<and>
   getjobpid (initjobs jobs0) 0 = None \<and> pid (initjobs jobs0 ! 0) = 0"
proof -
  have "pid (initjobs jobs0 ! 0) = 0"
    by (simp add: initjobs_def jobs0_def clearjob_def MAXJOBS_def)
  with nonpositive_pid_rejected [of 0 False "initjobs jobs0" FG "''ls''"] show ?thesis by simp
qed

section \<open>Properties of the shell\<close>

lemma first_index_SomeD:
  "first_index P xs = Some i \<Longrightarrow> i < length xs \<and> P (xs ! i) \<and> (\<forall>k<i. \<not> P (xs ! k))"
proof (induction xs arbitrary: i)
  case Nil
  then show ?case by simp
next
  case (Cons x xs)
  show ?case
  proof (cases "P x")
    case True
    with Cons.prems show ?thesis by simp
  next
    case False
    with Cons.prems obtain i' where i': "first_index P xs = Some i'" "i = Suc i'"
      by (auto split: option.splits)
    from Cons.IH [OF i'(1)] False i'(2) show ?thesis by (auto simp: less_Suc_eq_0_disj)
  qed
qed

lemma first_index_None_iff: "first_index P xs = None \<longleftrightarrow> (\<forall>x\<in>set xs. \<not> P x)"
  by (induction xs) (auto split: option.splits)

lemma fgpid_no_fg: "\<forall>j\<in>set js. state j \<noteq> FG \<Longrightarrow> fgpid js = 0"
  by (induction js) auto

lemma fgpid_first:
  "(\<forall>j\<in>set pre. state j \<noteq> FG) \<Longrightarrow> state c = FG \<Longrightarrow> fgpid (pre @ c # post) = pid c"
  by (induction pre) auto

lemma fgpid_mem: "\<exists>j\<in>set js. state j = FG \<Longrightarrow> \<exists>j\<in>set js. state j = FG \<and> fgpid js = pid j"
  by (induction js) auto

lemma upd_split:
  assumes "i < length js"
  obtains pre c post where "js = pre @ c # post" and "js ! i = c" and "length pre = i"
    and "\<And>x. js[i := x] = pre @ x # post"
proof
  show "js = take i js @ js ! i # drop (Suc i) js" using assms by (rule id_take_nth_drop)
  show "js ! i = js ! i" ..
  show "length (take i js) = i" using assms by simp
  show "js[i := x] = take i js @ x # drop (Suc i) js" for x
    using assms by (rule upd_conv_take_nth_drop)
qed

lemma jobs_ok_state_split:
  "jobs_ok (pre @ c # post) \<Longrightarrow> pid c \<noteq> 0 \<Longrightarrow> jobs_ok (pre @ c\<lparr>state := st\<rparr> # post)"
  by (auto simp: jobs_ok_def slot_ok_def cleared_def)

lemma jobs_ok_state:
  assumes ok: "jobs_ok js" and i: "i < length js" and l: "pid (js ! i) \<noteq> 0"
  shows "jobs_ok (js[i := (js ! i)\<lparr>state := st\<rparr>])"
proof -
  from upd_split [OF i] obtain pre c post where
    sp: "js = pre @ c # post" "js ! i = c" "\<And>x. js[i := x] = pre @ x # post" by metis
  from ok l have "jobs_ok (pre @ c\<lparr>state := st\<rparr> # post)"
    unfolding sp(2) unfolding sp(1) by (rule jobs_ok_state_split)
  then show ?thesis by (simp only: sp(2) sp(3))
qed

lemma getjobpid_SomeD:
  "getjobpid js p = Some i \<Longrightarrow> i < length js \<and> pid (js ! i) = p \<and> 1 \<le> p \<and> (\<forall>k<i. pid (js ! k) \<noteq> p)"
  by (auto simp: getjobpid_def split: if_splits dest: first_index_SomeD)

lemma getjobjid_SomeD:
  "getjobjid js n = Some i \<Longrightarrow> i < length js \<and> jid (js ! i) = n \<and> 1 \<le> n \<and> (\<forall>k<i. jid (js ! k) \<noteq> n)"
  by (auto simp: getjobjid_def split: if_splits dest: first_index_SomeD)

lemma jobs_ok_nth: "jobs_ok js \<Longrightarrow> i < length js \<Longrightarrow> slot_ok (js ! i)"
  by (simp add: jobs_ok_def list_all_length)

lemma bgfg_target_SomeD:
  assumes "bgfg_target js a = Ret (Some i)" and ok: "jobs_ok js"
  shows "i < length js \<and> 1 \<le> pid (js ! i)"
proof -
  from assms(1) have "(\<exists>n. getjobjid js n = Some i) \<or> (\<exists>p. getjobpid js p = Some i)"
    by (auto simp: bgfg_target_def split: if_splits option.splits)
  then have i: "i < length js" and "pid (js ! i) \<ge> 1 \<or> jid (js ! i) \<ge> 1"
    by (auto dest: getjobpid_SomeD getjobjid_SomeD)
  with jobs_ok_nth [OF ok i] show ?thesis by (auto simp: slot_ok_def cleared_def)
qed

lemma getjobjid_None:
  assumes ok: "jobs_ok js" and n: "n \<notin> live_jids js"
  shows "getjobjid js n = None"
proof (cases "n < 1")
  case True
  then show ?thesis by (simp add: getjobjid_def)
next
  case False
  have "jid j \<noteq> n" if "j \<in> set js" for j
  proof
    assume e: "jid j = n"
    from ok that have "slot_ok j" by (simp add: jobs_ok_def list_all_iff)
    with e False have "pid j \<noteq> 0" by (auto simp: slot_ok_def cleared_def)
    with that e n show False by (auto simp: live_jids_def)
  qed
  then show ?thesis by (simp add: getjobjid_def first_index_None_iff)
qed

lemma getjobpid_None:
  assumes "p \<notin> live_pids js"
  shows "getjobpid js p = None"
proof (cases "p < 1")
  case True
  then show ?thesis by (simp add: getjobpid_def)
next
  case False
  have "pid j \<noteq> p" if "j \<in> set js" for j
    using that assms False by (auto simp: live_pids_def)
  then show ?thesis by (simp add: getjobpid_def first_index_None_iff)
qed

lemma bgfg_target_None:
  assumes "jobs_ok js" and "names_no_job js a"
  shows "bgfg_target js a = Ret None"
  using assms by (auto simp: names_no_job_def bgfg_target_def getjobjid_None getjobpid_None
      split: if_splits option.splits)

lemma ok_sleep: "jobs_ok (jobs (sh [job_sleep BG] sleep_launched []))"
  by code_simp

lemma no_job_99999: "names_no_job (jobs (sh [job_sleep BG] sleep_launched [])) ''99999''"
  by code_simp
lemma no_job_jid_99: "names_no_job (jobs (sh [job_sleep BG] sleep_launched [])) ''%99''"
  by code_simp






lemma fgpid_split:
  "fgpid js \<noteq> 0 \<Longrightarrow>
   \<exists>pre c post. js = pre @ c # post \<and> state c = FG \<and> pid c = fgpid js \<and>
     (\<forall>j\<in>set pre. state j \<noteq> FG)"
proof (induction js)
  case Nil
  then show ?case by simp
next
  case (Cons j js)
  show ?case
  proof (cases "state j = FG")
    case True
    then have "j # js = [] @ j # js \<and> state j = FG \<and> pid j = fgpid (j # js) \<and>
      (\<forall>j\<in>set []. state j \<noteq> FG)" by simp
    then show ?thesis by blast
  next
    case False
    with Cons.prems have "fgpid js \<noteq> 0" by simp
    from Cons.IH [OF this] obtain pre c post where
      "js = pre @ c # post" "state c = FG" "pid c = fgpid js" "\<forall>j\<in>set pre. state j \<noteq> FG"
      by blast
    with False have "j # js = (j # pre) @ c # post \<and> state c = FG \<and> pid c = fgpid (j # js) \<and>
      (\<forall>j\<in>set (j # pre). state j \<noteq> FG)" by simp
    then show ?thesis by blast
  qed
qed

lemma deletejob_split:
  "(snd (deletejob js p) = js \<and> (1 \<le> p \<longrightarrow> (\<forall>j\<in>set js. pid j \<noteq> p))) \<or>
   (\<exists>pre c post. js = pre @ c # post \<and> pid c = p \<and> (\<forall>j\<in>set pre. pid j \<noteq> p) \<and>
      snd (deletejob js p) = pre @ clearjob c # post)"
proof (cases "p < 1")
  case True
  then show ?thesis by (simp add: deletejob_def)
next
  case False
  have "(deletejob_loop js p = (0, js) \<and> (\<forall>j\<in>set js. pid j \<noteq> p)) \<or>
   (\<exists>pre c post. js = pre @ c # post \<and> pid c = p \<and> (\<forall>j\<in>set pre. pid j \<noteq> p) \<and>
      deletejob_loop js p = (1, pre @ clearjob c # post))"
  proof (induction js)
    case Nil
    then show ?case by simp
  next
    case (Cons j js)
    show ?case
    proof (cases "pid j = p")
      case True
      then have "j # js = [] @ j # js \<and> pid j = p \<and> (\<forall>j\<in>set []. pid j \<noteq> p) \<and>
        deletejob_loop (j # js) p = (1, [] @ clearjob j # js)" by simp
      then show ?thesis by blast
    next
      case False
      from Cons.IH show ?thesis
      proof
        assume "deletejob_loop js p = (0, js) \<and> (\<forall>j\<in>set js. pid j \<noteq> p)"
        with False show ?thesis by simp
      next
        assume "\<exists>pre c post. js = pre @ c # post \<and> pid c = p \<and> (\<forall>j\<in>set pre. pid j \<noteq> p) \<and>
          deletejob_loop js p = (1, pre @ clearjob c # post)"
        then obtain pre c post where "js = pre @ c # post" "pid c = p" "\<forall>j\<in>set pre. pid j \<noteq> p"
          "deletejob_loop js p = (1, pre @ clearjob c # post)" by blast
        with False have "j # js = (j # pre) @ c # post \<and> pid c = p \<and>
          (\<forall>j\<in>set (j # pre). pid j \<noteq> p) \<and>
          deletejob_loop (j # js) p = (1, (j # pre) @ clearjob c # post)" by simp
        then show ?thesis by blast
      qed
    qed
  qed
  moreover from False have eq: "deletejob js p = deletejob_loop js p" by (simp add: deletejob_def)
  ultimately show ?thesis
  proof (elim disjE)
    assume "deletejob_loop js p = (0, js) \<and> (\<forall>j\<in>set js. pid j \<noteq> p)"
    with eq show ?thesis by simp
  next
    assume "\<exists>pre c post. js = pre @ c # post \<and> pid c = p \<and> (\<forall>j\<in>set pre. pid j \<noteq> p) \<and>
      deletejob_loop js p = (1, pre @ clearjob c # post)"
    then obtain pre c post where "js = pre @ c # post" "pid c = p" "\<forall>j\<in>set pre. pid j \<noteq> p"
      "deletejob_loop js p = (1, pre @ clearjob c # post)" by blast
    with eq have "js = pre @ c # post \<and> pid c = p \<and> (\<forall>j\<in>set pre. pid j \<noteq> p) \<and>
      snd (deletejob js p) = pre @ clearjob c # post" by simp
    then show ?thesis by blast
  qed
qed

lemma pids_distinct_split:
  assumes "pids_distinct (pre @ c # post)" and "pid c \<noteq> 0"
  shows "(\<forall>j\<in>set pre. pid j \<noteq> pid c) \<and> (\<forall>j\<in>set post. pid j \<noteq> pid c)"
proof -
  from assms have n: "pid c \<notin> pid ` {j \<in> set pre. pid j \<noteq> 0}"
    "pid c \<notin> pid ` {j \<in> set post. pid j \<noteq> 0}"
    by (simp_all add: pids_distinct_def)
  have "pid j \<noteq> pid c" if "j \<in> set pre" for j
  proof
    assume e: "pid j = pid c"
    with assms(2) that have "j \<in> {j \<in> set pre. pid j \<noteq> 0}" by simp
    then have "pid j \<in> pid ` {j \<in> set pre. pid j \<noteq> 0}" by (rule imageI)
    with e n(1) show False by simp
  qed
  moreover have "pid j \<noteq> pid c" if "j \<in> set post" for j
  proof
    assume e: "pid j = pid c"
    with assms(2) that have "j \<in> {j \<in> set post. pid j \<noteq> 0}" by simp
    then have "pid j \<in> pid ` {j \<in> set post. pid j \<noteq> 0}" by (rule imageI)
    with e n(2) show False by simp
  qed
  ultimately show ?thesis by blast
qed

lemma pids_distinct_clear:
  "pids_distinct (pre @ c # post) \<Longrightarrow> pids_distinct (pre @ clearjob c # post)"
  by (cases "pid c = 0") (auto simp: pids_distinct_def clearjob_def)

lemma deletejob_cases [consumes 0, case_names same cleared]:
  obtains "snd (deletejob js p) = js" and "1 \<le> p \<longrightarrow> (\<forall>j\<in>set js. pid j \<noteq> p)"
  | pre c post where "js = pre @ c # post" and "pid c = p" and "\<forall>j\<in>set pre. pid j \<noteq> p"
      and "snd (deletejob js p) = pre @ clearjob c # post"
  using deletejob_split [of js p] by blast

lemma pids_distinct_deletejob:
  assumes "pids_distinct js"
  shows "pids_distinct (snd (deletejob js p))"
proof (cases js p rule: deletejob_cases)
  case same
  with assms show ?thesis by simp
next
  case (cleared pre c post)
  with assms show ?thesis by (simp add: pids_distinct_clear)
qed

lemma deletejob_removes_pid:
  assumes d: "pids_distinct js" and p: "1 \<le> p"
  shows "\<forall>j\<in>set (snd (deletejob js p)). pid j \<noteq> p"
proof (cases js p rule: deletejob_cases)
  case same
  with p show ?thesis by simp
next
  case (cleared pre c post)
  from d cleared(1) have "pids_distinct (pre @ c # post)" by simp
  moreover from p cleared(2) have "pid c \<noteq> 0" by simp
  ultimately have "(\<forall>j\<in>set pre. pid j \<noteq> pid c) \<and> (\<forall>j\<in>set post. pid j \<noteq> pid c)"
    by (rule pids_distinct_split)
  with cleared(2,4) p show ?thesis by (auto simp: clearjob_def)
qed

lemma deletejob_keeps_absent:
  assumes n: "\<forall>j\<in>set js. pid j \<noteq> p" and p: "p \<noteq> 0"
  shows "\<forall>j\<in>set (snd (deletejob js w)). pid j \<noteq> p"
proof (cases js w rule: deletejob_cases)
  case same
  with n show ?thesis by simp
next
  case (cleared pre c post)
  with n p show ?thesis by (auto simp: clearjob_def)
qed

lemma sigchld_keeps_absent:
  "\<forall>j\<in>set (jobs t). pid j \<noteq> p \<Longrightarrow> p \<noteq> 0 \<Longrightarrow>
   \<forall>j\<in>set (jobs (sigchld_handler ws t)). pid j \<noteq> p"
proof (induction ws arbitrary: t)
  case Nil
  then show ?case by simp
next
  case (Cons w ws)
  show ?case
  proof (cases "0 < w")
    case True
    let ?t = "t\<lparr>jobs := snd (deletejob (jobs t) w)\<rparr>"
    from deletejob_keeps_absent [OF Cons.prems] have "\<forall>j\<in>set (jobs ?t). pid j \<noteq> p" by simp
    from Cons.IH [OF this Cons.prems(2)] True show ?thesis by simp
  next
    case False
    with Cons.prems show ?thesis by simp
  qed
qed

lemma sigchld_removes:
  "pids_distinct (jobs t) \<Longrightarrow> 1 \<le> p \<Longrightarrow> p \<in> set (takeWhile (\<lambda>w. 0 < w) ws) \<Longrightarrow>
   \<forall>j\<in>set (jobs (sigchld_handler ws t)). pid j \<noteq> p"
proof (induction ws arbitrary: t)
  case Nil
  then show ?case by simp
next
  case (Cons w ws)
  from Cons.prems(3) have w: "0 < w" by (auto split: if_splits)
  let ?t = "t\<lparr>jobs := snd (deletejob (jobs t) w)\<rparr>"
  show ?case
  proof (cases "w = p")
    case True
    from deletejob_removes_pid [OF Cons.prems(1,2)] True
    have "\<forall>j\<in>set (jobs ?t). pid j \<noteq> p" by simp
    moreover from Cons.prems(2) have "p \<noteq> 0" by simp
    ultimately have "\<forall>j\<in>set (jobs (sigchld_handler ws ?t)). pid j \<noteq> p"
      by (rule sigchld_keeps_absent)
    with w show ?thesis by simp
  next
    case False
    with Cons.prems(3) w have "p \<in> set (takeWhile (\<lambda>w. 0 < w) ws)" by simp
    moreover have "pids_distinct (jobs ?t)" using Cons.prems(1) by (simp add: pids_distinct_deletejob)
    ultimately have "\<forall>j\<in>set (jobs (sigchld_handler ws ?t)). pid j \<noteq> p"
      using Cons.prems(2) by (intro Cons.IH)
    with w show ?thesis by simp
  qed
qed





section \<open>Properties of the control points\<close>

lemma run_reach: "shell_reach cs \<Longrightarrow> run evs cs = Some cs' \<Longrightarrow> shell_reach cs'"
proof (induction evs arbitrary: cs)
  case Nil
  then show ?case by simp
next
  case (Cons ev evs)
  from Cons.prems(2) obtain cs1 where f: "fire ev cs = Some cs1" and r: "run evs cs1 = Some cs'"
    by (auto split: option.splits)
  from Cons.prems(1) f have "shell_reach cs1" by (rule shell_reach.step)
  then show ?case using r by (rule Cons.IH)
qed

lemma run_append:
  "run (evs @ evs') cs = (case run evs cs of None \<Rightarrow> None | Some cs1 \<Rightarrow> run evs' cs1)"
  by (induction evs arbitrary: cs) (auto split: option.splits)

text \<open>
  The statements of \<^verbatim>\<open>do_bgfg\<close> and of \<^verbatim>\<open>eval\<close>, run one after the other with no
  handler in between, are the functions \<open>do_bgfg\<close> and \<open>eval\<close>.
\<close>

lemma pid_state_upd: "pid (js[i := (js ! i)\<lparr>state := st\<rparr>] ! i) = pid (js ! i)"
  by (cases "i < length js") (simp_all add: list_update_beyond)

lemma do_bgfg_uninterrupted:
  "do_bgfg krv s argv =
     (case bgfg_target (jobs s) (argv ! 1) of
        Undef \<Rightarrow> Undef
      | Exit x \<Rightarrow> Exit x
      | Child \<Rightarrow> Child
      | Ret None \<Rightarrow> Ret (Prompt, s\<lparr>out := out s @ no_such_job_msg (argv ! 1)\<rparr>)
      | Ret (Some i) \<Rightarrow> uninterrupted krv (BgfgFound (argv ! 0) i, s))"
  by (simp add: do_bgfg_def uninterrupted_def bgfg_write_def bg_signal_def bg_print_def
      fg_read_def fg_signal_def Let_def pid_state_upd split: res.splits option.splits)

lemma eval_uninterrupted:
  "eval e s cl =
     (case begin_line e s cl of
        Ret cs \<Rightarrow> uninterrupted (kill_rv e) cs
      | Exit x \<Rightarrow> Exit x
      | Child \<Rightarrow> Child
      | Undef \<Rightarrow> Undef)"
proof (cases "parseline cl")
  case None
  then show ?thesis by (simp add: eval_def begin_line_def)
next
  case (Some argv)
  show ?thesis
  proof (cases "length argv \<ge> 2 \<and> (argv ! 0 = ''bg'' \<or> argv ! 0 = ''fg'')")
    case True
    then have n: "argv ! 0 \<noteq> ''jobs''" "argv ! 0 \<noteq> ''quit''" "length argv \<noteq> 0" "\<not> length argv < 2"
      by auto
    have u: "uninterrupted krv (AtPrompt, t) = Ret (Prompt, t)" for krv t
      by (simp add: uninterrupted_def)
    show ?thesis using True n
      by (simp add: Some eval_def begin_line_def builtin_cmd_def do_bgfg_uninterrupted u
          split: res.splits option.splits)
  next
    case False
    have u: "uninterrupted krv (AtPrompt, t) = Ret (Prompt, t)"
      "uninterrupted krv (WaitEnter p, t) = Ret (Waitfg p, t)"
      "uninterrupted krv (Announce f, t) =
         (case getjobpid (jobs t) f of
            None \<Rightarrow> Undef
          | Some i \<Rightarrow> Ret (Prompt, t\<lparr>out := out t @ launch_msg (jobs t ! i)\<rparr>))" for krv t p f
      by (simp_all add: uninterrupted_def announce_def split: option.splits)
    show ?thesis using False
      by (auto simp: Some eval_def begin_line_def builtin_cmd_def u Let_def
          split: option.splits)
  qed
qed

text \<open>\<^verbatim>\<open>waitfg(p)\<close> goes back to the prompt only from its test, and only when it fails.\<close>

lemma waitfg_returns_when_not_foreground:
  "main_step krv (WaitCheck p b) s = Some (AtPrompt, s') \<longleftrightarrow> s' = s \<and> fgpid (jobs s) \<noteq> p"
  by (auto simp: main_step_def)

lemma waitfg_keeps_pending_sigchld:
  "fire (Sigchld ws) (WaitBlock p b, s) = Some (WaitBlock p True, s)"
  "fire (Main krv) (WaitBlock p True, s) = Some (WaitSuspended p True, s)"
  "fire (Sigchld ws) (WaitSuspended p True, s) = Some (WaitCheck p False, sigchld_handler ws s)"
  by (simp_all add: main_step_def)

text \<open>
  Between the test of \<^verbatim>\<open>waitfg(p)\<close> and the end of its \<^verbatim>\<open>sigsuspend\<close> the foreground
  pid is \<open>p\<close>, as long as \<^verbatim>\<open>sigtstp_handler\<close> does not run: SIGCHLD is blocked until
  \<^verbatim>\<open>sigsuspend\<close> and handled inside it, and \<^verbatim>\<open>sigint_handler\<close> does not write to the
  table. So without SIGTSTP the main flow is never inside \<^verbatim>\<open>sigsuspend\<close> while \<open>p\<close> is
  no longer the foreground pid.
\<close>

lemma sigint_handler_jobs: "sigint_handler krv s = Ret s' \<Longrightarrow> jobs s' = jobs s"
  by (auto simp: sigint_handler_def Let_def split: if_splits option.splits)

lemma begin_line_pc:
  "begin_line e s cl = Ret (c, s') \<Longrightarrow>
   c = AtPrompt \<or> (\<exists>cmd i. c = BgfgFound cmd i) \<or> (\<exists>f. c = Announce f) \<or> (\<exists>f. c = WaitEnter f)"
  by (auto simp: begin_line_def Let_def split: option.splits if_splits res.splits)

lemma waiting_inv_fire:
  assumes i: "waiting_inv cs" and f: "fire ev cs = Some cs'" and n: "\<not> is_sigtstp ev"
  shows "waiting_inv cs'"
proof (cases cs)
  case (Pair c s)
  show ?thesis
  proof (cases ev)
    case (Line e cl)
    with f Pair obtain c' s' where "begin_line e s cl = Ret (c', s')" "cs' = (c', s')"
      by (cases "begin_line e s cl") (auto simp: ret_def split: if_splits)
    with begin_line_pc [of e s cl c' s'] show ?thesis by (auto simp: waiting_inv_def)
  next
    case (Main krv)
    with f i Pair show ?thesis
      by (cases c)
         (auto simp: main_step_def waiting_inv_def ret_def bgfg_write_def bg_signal_def
            bg_print_def fg_read_def fg_signal_def announce_def Let_def
            split: if_splits option.splits)
  next
    case (Sigchld ws)
    with f i Pair show ?thesis by (cases c) (auto simp: waiting_inv_def)
  next
    case (Sigint krv)
    with f Pair obtain s' where h: "sigint_handler krv s = Ret s'" and c: "cs' = (resume c, s')"
      by (cases "sigint_handler krv s") auto
    from h have "jobs s' = jobs s" by (rule sigint_handler_jobs)
    with i Pair c show ?thesis by (cases c) (auto simp: waiting_inv_def resume_def)
  next
    case (Sigtstp krv)
    with n show ?thesis by (simp add: is_sigtstp_def)
  qed
qed

lemma waiting_inv_run:
  "waiting_inv cs \<Longrightarrow> run evs cs = Some cs' \<Longrightarrow> \<not> list_ex is_sigtstp evs \<Longrightarrow> waiting_inv cs'"
proof (induction evs arbitrary: cs)
  case Nil
  then show ?case by simp
next
  case (Cons ev evs)
  from Cons.prems(2) obtain cs1 where f: "fire ev cs = Some cs1" and r: "run evs cs1 = Some cs'"
    by (auto split: option.splits)
  from Cons.prems(3) have n: "\<not> is_sigtstp ev" "\<not> list_ex is_sigtstp evs" by simp_all
  from Cons.prems(1) f n(1) have "waiting_inv cs1" by (rule waiting_inv_fire)
  then show ?case using r n(2) by (rule Cons.IH)
qed

lemma waitfg_awake_without_sigtstp:
  assumes "run evs (AtPrompt, shell0 v) = Some (WaitSuspended p b, s)"
    and "\<not> list_ex is_sigtstp evs"
  shows "fgpid (jobs s) = p"
proof -
  have "waiting_inv (AtPrompt, shell0 v)" by (simp add: waiting_inv_def)
  from waiting_inv_run [OF this assms] show ?thesis by (simp add: waiting_inv_def)
qed

text \<open>
  At most one slot is FG in every state reached by a run in which no SIGCHLD is handled
  between the lookup of \<^verbatim>\<open>do_bgfg\<close> and its write of the state. All other interleavings
  of the handlers with the statements of the main flow keep it.
\<close>

lemma fg_count_0_iff: "fg_count js = 0 \<longleftrightarrow> (\<forall>j\<in>set js. state j \<noteq> FG)"
  by (auto simp: fg_count_def filter_empty_conv)

lemma fg_count_state_other:
  assumes "st \<noteq> FG"
  shows "fg_count (js[i := (js ! i)\<lparr>state := st\<rparr>]) \<le> fg_count js"
proof (cases "i < length js")
  case True
  from upd_split [OF True] obtain pre c post where
    sp: "js = pre @ c # post" "js ! i = c" "\<And>x. js[i := x] = pre @ x # post" by metis
  have "fg_count (pre @ c\<lparr>state := st\<rparr> # post) \<le> fg_count (pre @ c # post)"
    using assms by (simp add: fg_count_def)
  then have "fg_count (js[i := c\<lparr>state := st\<rparr>]) \<le> fg_count (pre @ c # post)"
    by (simp only: sp(3))
  then show ?thesis unfolding sp(2) using sp(1) by simp
next
  case False
  then show ?thesis by (simp add: list_update_beyond)
qed

lemma fg_pids_state_other:
  assumes "st \<noteq> FG" and "list_all (\<lambda>j. state j = FG \<longrightarrow> pid j = p) js"
  shows "list_all (\<lambda>j. state j = FG \<longrightarrow> pid j = p) (js[i := (js ! i)\<lparr>state := st\<rparr>])"
proof -
  have "pid j = p" if "j \<in> set (js[i := (js ! i)\<lparr>state := st\<rparr>])" "state j = FG" for j
  proof -
    from that(1) set_update_subset_insert [of js i "(js ! i)\<lparr>state := st\<rparr>"]
    have "j = (js ! i)\<lparr>state := st\<rparr> \<or> j \<in> set js" by blast
    with that(2) assms show ?thesis by (auto simp: list_all_iff)
  qed
  then show ?thesis by (simp add: list_all_iff)
qed

lemma fg_state_set:
  assumes z: "fg_count js = 0" and i: "i < length js"
  shows "fg_count (js[i := (js ! i)\<lparr>state := FG\<rparr>]) = 1"
    and "fgpid (js[i := (js ! i)\<lparr>state := FG\<rparr>]) = pid (js ! i)"
    and "list_all (\<lambda>j. state j = FG \<longrightarrow> pid j = pid (js ! i)) (js[i := (js ! i)\<lparr>state := FG\<rparr>])"
proof -
  from upd_split [OF i] obtain pre c post where
    sp: "js = pre @ c # post" "js ! i = c" "\<And>x. js[i := x] = pre @ x # post" by metis
  have u: "js[i := c\<lparr>state := FG\<rparr>] = pre @ c\<lparr>state := FG\<rparr> # post"
    by (rule sp(3))
  from z have n: "\<forall>j\<in>set pre. state j \<noteq> FG" "\<forall>j\<in>set post. state j \<noteq> FG"
    unfolding sp(1) by (auto simp: fg_count_0_iff)
  then have f: "filter (\<lambda>j. state j = FG) pre = []" "filter (\<lambda>j. state j = FG) post = []"
    by (simp_all add: filter_empty_conv)
  show "fg_count (js[i := (js ! i)\<lparr>state := FG\<rparr>]) = 1"
    by (simp only: sp(2) u) (simp add: fg_count_def f)
  show "fgpid (js[i := (js ! i)\<lparr>state := FG\<rparr>]) = pid (js ! i)"
    using fgpid_first [of pre "c\<lparr>state := FG\<rparr>" post] n(1) by (simp only: sp(2) u) simp
  show "list_all (\<lambda>j. state j = FG \<longrightarrow> pid j = pid (js ! i)) (js[i := (js ! i)\<lparr>state := FG\<rparr>])"
    using n by (simp only: sp(2) u) (auto simp: list_all_iff)
qed

lemma deletejob_fg:
  "fg_count (snd (deletejob js p)) \<le> fg_count js"
  "list_all (\<lambda>j. state j = FG \<longrightarrow> pid j = (q::int)) js \<Longrightarrow>
   list_all (\<lambda>j. state j = FG \<longrightarrow> pid j = q) (snd (deletejob js p))"
  using deletejob_loop_cases [of js p]
  by (auto simp: deletejob_def fg_count_def clearjob_def state_defs list_all_iff)

lemma fg_count_add:
  assumes ok: "jobs_ok (pre @ c # post)" and c: "pid c = 0" and z: "fg_count (pre @ c # post) = 0"
  shows "fg_count (pre @ \<lparr>pid = p, jid = n, state = st, cmdline = cl\<rparr> # post) \<le> 1"
    and "st \<noteq> FG \<Longrightarrow> fg_count (pre @ \<lparr>pid = p, jid = n, state = st, cmdline = cl\<rparr> # post) = 0"
    and "list_all (\<lambda>j. state j = FG \<longrightarrow> pid j = p) (pre @ \<lparr>pid = p, jid = n, state = st, cmdline = cl\<rparr> # post)"
proof -
  from z have n: "\<forall>j\<in>set pre. state j \<noteq> FG" "\<forall>j\<in>set post. state j \<noteq> FG"
    by (auto simp: fg_count_0_iff)
  then have f: "filter (\<lambda>j. state j = FG) pre = []" "filter (\<lambda>j. state j = FG) post = []"
    by (simp_all add: filter_empty_conv)
  show "fg_count (pre @ \<lparr>pid = p, jid = n, state = st, cmdline = cl\<rparr> # post) \<le> 1"
    by (simp add: fg_count_def f)
  show "st \<noteq> FG \<Longrightarrow> fg_count (pre @ \<lparr>pid = p, jid = n, state = st, cmdline = cl\<rparr> # post) = 0"
    by (simp add: fg_count_def f)
  show "list_all (\<lambda>j. state j = FG \<longrightarrow> pid j = p) (pre @ \<lparr>pid = p, jid = n, state = st, cmdline = cl\<rparr> # post)"
    using n by (auto simp: list_all_iff)
qed

lemma fg_only_fgpid: "fg_count js \<le> 1 \<Longrightarrow> fg_only (fgpid js) js"
proof (induction js)
  case Nil
  then show ?case by (simp add: fg_only_def)
next
  case (Cons j js)
  show ?case
  proof (cases "state j = FG")
    case True
    with Cons.prems have "fg_count js = 0" by (simp add: fg_count_def)
    then have "\<forall>x\<in>set js. state x \<noteq> FG" by (simp add: fg_count_0_iff)
    with True show ?thesis by (auto simp: fg_only_def list_all_iff)
  next
    case False
    with Cons.prems have "fg_count js \<le> 1" by (simp add: fg_count_def)
    from Cons.IH [OF this] False show ?thesis by (simp add: fg_only_def)
  qed
qed

lemma fgpid_0_no_fg:
  assumes ok: "jobs_ok js" and z: "fgpid js = 0"
  shows "fg_count js = 0"
proof -
  have "\<forall>j\<in>set js. state j \<noteq> FG"
  proof (rule ccontr)
    assume "\<not> (\<forall>j\<in>set js. state j \<noteq> FG)"
    then have "\<exists>j\<in>set js. state j = FG" by blast
    from fgpid_mem [OF this] obtain j where j: "j \<in> set js" "state j = FG" "fgpid js = pid j"
      by blast
    from ok j(1) have "slot_ok j" by (simp add: jobs_ok_def list_all_iff)
    with j(2) have "pid j \<noteq> 0" by (auto simp: slot_ok_def cleared_def state_defs)
    with j(3) z show False by simp
  qed
  then show ?thesis by (simp add: fg_count_0_iff)
qed

lemma fg_only_not_fgpid:
  assumes o: "fg_only p js" and h: "fgpid js \<noteq> p"
  shows "fg_count js = 0"
proof -
  have "\<forall>j\<in>set js. state j \<noteq> FG"
  proof (rule ccontr)
    assume "\<not> (\<forall>j\<in>set js. state j \<noteq> FG)"
    then have "\<exists>j\<in>set js. state j = FG" by blast
    from fgpid_mem [OF this] obtain j where "j \<in> set js" "state j = FG" "fgpid js = pid j"
      by blast
    with o h show False by (auto simp: fg_only_def list_all_iff)
  qed
  then show ?thesis by (simp add: fg_count_0_iff)
qed

lemma sigchld_tables:
  "jobs_ok (jobs s) \<Longrightarrow>
   jobs_ok (jobs (sigchld_handler ws s)) \<and>
   fg_count (jobs (sigchld_handler ws s)) \<le> fg_count (jobs s) \<and>
   (fg_only p (jobs s) \<longrightarrow> fg_only p (jobs (sigchld_handler ws s)))"
proof (induction ws arbitrary: s)
  case Nil
  then show ?case by simp
next
  case (Cons j ws)
  show ?case
  proof (cases "0 < j")
    case True
    let ?s = "s\<lparr>jobs := snd (deletejob (jobs s) j)\<rparr>"
    have ok: "jobs_ok (jobs ?s)" using Cons.prems by (simp add: jobs_ok_deletejob)
    have le: "fg_count (jobs ?s) \<le> fg_count (jobs s)" by (simp add: deletejob_fg(1))
    have on: "fg_only p (jobs s) \<longrightarrow> fg_only p (jobs ?s)"
      using deletejob_fg(2) [of p "jobs s" j] by (simp add: fg_only_def)
    from Cons.IH [OF ok] le on True show ?thesis by auto
  next
    case False
    with Cons.prems show ?thesis by simp
  qed
qed

lemma sigtstp_tables:
  assumes ok: "jobs_ok (jobs s)" and h: "sigtstp_handler krv s = Ret s'"
  shows "jobs_ok (jobs s') \<and> fg_count (jobs s') \<le> fg_count (jobs s) \<and>
         (fg_only p (jobs s) \<longrightarrow> fg_only p (jobs s')) \<and>
         (fg_count (jobs s) = 0 \<longrightarrow> jobs s' = jobs s)"
proof (cases "fgpid (jobs s) = 0")
  case True
  with h show ?thesis using ok by (simp add: sigtstp_handler_def)
next
  case False
  with h obtain i where i: "getjobpid (jobs s) (fgpid (jobs s)) = Some i"
    and s': "s' = s\<lparr>kills := kills s @ [(fgpid (jobs s), SIGTSTP)],
                    jobs := (jobs s)[i := (jobs s ! i)\<lparr>state := ST\<rparr>]\<rparr>"
    by (auto simp: sigtstp_handler_def Let_def split: if_splits option.splits)
  from getjobpid_SomeD [OF i] have il: "i < length (jobs s)" "pid (jobs s ! i) \<noteq> 0" by auto
  have st: "ST \<noteq> FG" by (simp add: state_defs)
  have nz: "fg_count (jobs s) \<noteq> 0"
  proof
    assume "fg_count (jobs s) = 0"
    then have "\<forall>j\<in>set (jobs s). state j \<noteq> FG" by (simp add: fg_count_0_iff)
    then have "fgpid (jobs s) = 0" by (rule fgpid_no_fg)
    with False show False by simp
  qed
  from jobs_ok_state [OF ok il, of ST] fg_count_state_other [OF st, of "jobs s" i]
    fg_pids_state_other [OF st, of p "jobs s" i] nz
  show ?thesis unfolding s' by (simp add: fg_only_def)
qed

lemma fg_inv_handler:
  assumes i: "fg_inv (c, s)" and ok: "jobs_ok (jobs s') "
    and le: "fg_count (jobs s') \<le> fg_count (jobs s)"
    and on: "\<And>p. fg_only p (jobs s) \<Longrightarrow> fg_only p (jobs s')"
    and same: "(case c of BgfgFound cmd i \<Rightarrow> jobs s' = jobs s | _ \<Rightarrow> True)"
  shows "fg_inv (c, s')" and "fg_inv (resume c, s')"
  using assms by (cases c; auto simp: fg_inv_def resume_def)+

lemma fg_inv_out: "fg_inv (c, s\<lparr>out := x\<rparr>) = fg_inv (c, s)"
  by (cases c) (simp_all add: fg_inv_def)

lemma fg_inv_kills: "fg_inv (c, s\<lparr>kills := x\<rparr>) = fg_inv (c, s)"
  by (cases c) (simp_all add: fg_inv_def)

lemma fg_inv_begin_line:
  assumes inv: "fg_inv (AtPrompt, s)" and h: "begin_line e s cl = Ret cs'"
  shows "fg_inv cs'"
proof -
  from inv have ok: "jobs_ok (jobs s)" and z: "fg_count (jobs s) = 0"
    by (simp_all add: fg_inv_def)
  from h obtain argv where pl: "parseline cl = Some argv"
    by (auto simp: begin_line_def split: option.splits)
  consider (empty) "length argv = 0"
    | (bgfg) "length argv \<noteq> 0" "argv ! 0 \<noteq> ''jobs''" "argv ! 0 \<noteq> ''quit''"
        "argv ! 0 = ''bg'' \<or> argv ! 0 = ''fg''"
    | (jobs) "length argv \<noteq> 0" "argv ! 0 = ''jobs''"
    | (quit) "length argv \<noteq> 0" "argv ! 0 \<noteq> ''jobs''" "argv ! 0 = ''quit''"
    | (launch) "length argv \<noteq> 0" "argv ! 0 \<noteq> ''jobs''" "argv ! 0 \<noteq> ''quit''"
        "\<not> (argv ! 0 = ''bg'' \<or> argv ! 0 = ''fg'')"
    by blast
  then show ?thesis
  proof cases
    case empty
    with h pl inv show ?thesis by (simp add: begin_line_def)
  next
    case jobs
    with h pl inv show ?thesis by (auto simp: begin_line_def fg_inv_out)
  next
    case quit
    with h pl show ?thesis by (simp add: begin_line_def)
  next
    case bgfg
    show ?thesis
    proof (cases "length argv < 2")
      case True
      with bgfg h pl inv show ?thesis by (auto simp: begin_line_def fg_inv_out)
    next
      case False
      show ?thesis
      proof (cases "bgfg_target (jobs s) (argv ! 1)")
        case (Ret t)
        show ?thesis
        proof (cases t)
          case None
          with Ret False bgfg h pl inv show ?thesis by (auto simp: begin_line_def fg_inv_out)
        next
          case (Some i)
          with Ret have tg: "bgfg_target (jobs s) (argv ! 1) = Ret (Some i)" by simp
          from bgfg_target_SomeD [OF tg ok] have i: "i < length (jobs s)" "pid (jobs s ! i) \<noteq> 0"
            by auto
          from tg False bgfg h pl have "cs' = (BgfgFound (argv ! 0) i, s)"
            by (auto simp: begin_line_def)
          with ok z i show ?thesis by (simp add: fg_inv_def)
        qed
      next
        case (Exit x)
        with False bgfg h pl show ?thesis by (auto simp: begin_line_def)
      next
        case Child
        with False bgfg h pl show ?thesis by (auto simp: begin_line_def)
      next
        case Undef
        with False bgfg h pl show ?thesis by (auto simp: begin_line_def)
      qed
    qed
  next
    case launch
    define st where "st = (if argv ! (length argv - 1) = ''&'' then BG else FG)"
    from h pl launch obtain r js' msg where
      f: "1 \<le> fork_rv e" and a: "addjob (verbose s) (jobs s) (fork_rv e) st cl = Some (r, js', msg)"
      and r: "r = 1"
      by (auto simp: begin_line_def Let_def st_def split: if_splits option.splits)
    from h pl launch a r f
    have res: "jobs (snd cs') = js'" "st = BG \<longrightarrow> fst cs' = Announce (fork_rv e)"
      "st \<noteq> BG \<longrightarrow> fst cs' = WaitEnter (fork_rv e)"
      by (auto simp: begin_line_def Let_def st_def split: if_splits option.splits)
    from addjob_cases [OF ok f, of "verbose s" st cl] a r obtain pre c0 post n where
      sp: "jobs s = pre @ c0 # post" "pid c0 = 0"
      "js' = pre @ \<lparr>pid = fork_rv e, jid = n, state = st, cmdline = cl\<rparr> # post"
      by (auto split: if_splits)
    from ok z sp(1) have ok': "jobs_ok (pre @ c0 # post)" and z': "fg_count (pre @ c0 # post) = 0"
      by simp_all
    have ok2: "jobs_ok js'" using jobs_ok_addjob [OF ok a] .
    note fa = fg_count_add [OF ok' sp(2) z', where p = "fork_rv e" and n = n and st = st and cl = cl]
    have b: "BG \<noteq> FG" by (simp add: state_defs)
    from fa res ok2 b show ?thesis
      unfolding sp(3) [symmetric] by (cases cs'; cases "st = BG") (auto simp: fg_inv_def fg_only_def)
  qed
qed

lemma fg_inv_main_step:
  assumes inv: "fg_inv (c, s)" and h: "main_step krv c s = Some cs'"
  shows "fg_inv cs'"
proof -
  from inv have ok: "jobs_ok (jobs s)" and le: "fg_count (jobs s) \<le> 1"
    by (simp_all add: fg_inv_def)
  show ?thesis
  proof (cases c)
    case AtPrompt
    with h show ?thesis by (simp add: main_step_def)
  next
    case (BgfgFound cmd i)
    with inv have z: "fg_count (jobs s) = 0" and i: "i < length (jobs s)" "pid (jobs s ! i) \<noteq> 0"
      by (simp_all add: fg_inv_def)
    from BgfgFound h have cs': "cs' = bgfg_write cmd i s" by (simp add: main_step_def)
    consider (bg) "cmd = ''bg''" | (fg) "cmd \<noteq> ''bg''" "cmd = ''fg''"
      | (other) "cmd \<noteq> ''bg''" "cmd \<noteq> ''fg''" by blast
    then show ?thesis
    proof cases
      case bg
      have b: "BG \<noteq> FG" by (simp add: state_defs)
      from jobs_ok_state [OF ok i, of BG] fg_count_state_other [OF b, of "jobs s" i] z bg
      show ?thesis by (simp add: cs' bgfg_write_def fg_inv_def)
    next
      case fg
      from fg_state_set(1) [OF z i(1)] jobs_ok_state [OF ok i, of FG] fg
      show ?thesis by (simp add: cs' bgfg_write_def fg_inv_def)
    next
      case other
      with ok z show ?thesis by (simp add: cs' bgfg_write_def fg_inv_def)
    qed
  next
    case (BgWritten i)
    with h inv show ?thesis
      by (auto simp: main_step_def bg_signal_def ret_def fg_inv_def split: if_splits)
  next
    case (BgSignalled i)
    with h inv show ?thesis by (auto simp: main_step_def bg_print_def fg_inv_def)
  next
    case (FgWritten i)
    show ?thesis
    proof (cases "fgpid (jobs s) = 0")
      case True
      with FgWritten h have "cs' = (AtPrompt, s)" by (simp add: main_step_def fg_read_def)
      with ok fgpid_0_no_fg [OF ok True] show ?thesis by (simp add: fg_inv_def)
    next
      case False
      with FgWritten h have "cs' = (FgRead i (fgpid (jobs s)), s)"
        by (simp add: main_step_def fg_read_def)
      with ok le fg_only_fgpid [OF le] show ?thesis by (simp add: fg_inv_def)
    qed
  next
    case (FgRead i p)
    with h inv show ?thesis
      by (auto simp: main_step_def fg_signal_def ret_def fg_inv_def split: if_splits)
  next
    case (Announce f)
    with h inv show ?thesis
      by (auto simp: main_step_def announce_def ret_def fg_inv_def split: option.splits)
  next
    case (WaitEnter p)
    with h inv show ?thesis by (auto simp: main_step_def fg_inv_def)
  next
    case (WaitCheck p b)
    with inv have o: "fg_only p (jobs s)" by (simp add: fg_inv_def)
    show ?thesis
    proof (cases "p = fgpid (jobs s)")
      case True
      with WaitCheck h ok le o show ?thesis by (auto simp: main_step_def fg_inv_def)
    next
      case False
      then have "fgpid (jobs s) \<noteq> p" by simp
      from fg_only_not_fgpid [OF o this] False WaitCheck h ok show ?thesis
        by (auto simp: main_step_def fg_inv_def)
    qed
  next
    case (WaitBlock p b)
    with h inv show ?thesis by (auto simp: main_step_def fg_inv_def)
  next
    case (WaitSuspended p b)
    with h show ?thesis by (simp add: main_step_def)
  qed
qed

lemma fg_inv_fire:
  assumes inv: "fg_inv cs" and f: "fire ev cs = Some cs'" and n: "\<not> lookup_race ev (fst cs)"
  shows "fg_inv cs'"
proof (cases cs)
  case (Pair c s)
  from inv Pair have ok: "jobs_ok (jobs s)" by (simp add: fg_inv_def)
  show ?thesis
  proof (cases ev)
    case (Line e cl)
    with f Pair have c: "c = AtPrompt" and "ret (begin_line e s cl) = Some cs'"
      by (auto split: if_splits)
    then have "begin_line e s cl = Ret cs'"
      by (cases "begin_line e s cl") (simp_all add: ret_def)
    with inv Pair c show ?thesis by (auto intro: fg_inv_begin_line)
  next
    case (Main krv)
    with f Pair inv show ?thesis by (auto intro: fg_inv_main_step)
  next
    case (Sigchld ws)
    from sigchld_tables [OF ok, of ws]
    have t: "jobs_ok (jobs (sigchld_handler ws s))"
      "fg_count (jobs (sigchld_handler ws s)) \<le> fg_count (jobs s)"
      "\<And>p. fg_only p (jobs s) \<Longrightarrow> fg_only p (jobs (sigchld_handler ws s))"
      by blast+
    from n Sigchld Pair have nb: "case c of BgfgFound cmd i \<Rightarrow> jobs (sigchld_handler ws s) = jobs s | _ \<Rightarrow> True"
      by (cases c) (simp_all add: lookup_race_def)
    from inv Pair have i: "fg_inv (c, s)" by simp
    note r = fg_inv_handler [OF i t nb]
    from f Sigchld Pair inv r show ?thesis
      by (cases c) (auto simp: fg_inv_def resume_def)
  next
    case (Sigint krv)
    with f Pair obtain s' where h: "sigint_handler krv s = Ret s'" and c: "cs' = (resume c, s')"
      by (cases "sigint_handler krv s") auto
    from sigint_handler_jobs [OF h] have j: "jobs s' = jobs s" .
    from inv Pair have i: "fg_inv (c, s)" by simp
    have "fg_inv (resume c, s')"
      using i ok j by (intro fg_inv_handler(2) [OF i]) (auto split: pc.splits)
    with c show ?thesis by simp
  next
    case (Sigtstp krv)
    with f Pair obtain s' where h: "sigtstp_handler krv s = Ret s'" and c: "cs' = (resume c, s')"
      by (cases "sigtstp_handler krv s") auto
    from inv Pair have i: "fg_inv (c, s)" by simp
    from sigtstp_tables [OF ok h]
    have t: "jobs_ok (jobs s')" "fg_count (jobs s') \<le> fg_count (jobs s)"
      "\<And>p. fg_only p (jobs s) \<Longrightarrow> fg_only p (jobs s')"
      "fg_count (jobs s) = 0 \<longrightarrow> jobs s' = jobs s"
      by blast+
    have nb: "case c of BgfgFound cmd i \<Rightarrow> jobs s' = jobs s | _ \<Rightarrow> True"
      using i t(4) by (cases c) (simp_all add: fg_inv_def)
    from fg_inv_handler(2) [OF i t(1-3) nb] c show ?thesis by simp
  qed
qed

lemma fg_inv_run:
  "fg_inv cs \<Longrightarrow> run evs cs = Some cs' \<Longrightarrow> race_free evs cs \<Longrightarrow> fg_inv cs'"
proof (induction evs arbitrary: cs)
  case Nil
  then show ?case by simp
next
  case (Cons ev evs)
  from Cons.prems(2) obtain cs1 where f: "fire ev cs = Some cs1" and r: "run evs cs1 = Some cs'"
    by (auto split: option.splits)
  from Cons.prems(3) f have n: "\<not> lookup_race ev (fst cs)" "race_free evs cs1" by simp_all
  from Cons.prems(1) f n(1) have "fg_inv cs1" by (rule fg_inv_fire)
  then show ?case using r n(2) by (rule Cons.IH)
qed

lemma fg_inv_start: "fg_inv (AtPrompt, shell0 v)"
proof -
  have "fg_count (initjobs jobs0) = 0"
    by (simp add: fg_count_0_iff initjobs_def clearjob_def state_defs)
  with jobs_ok_init show ?thesis by (simp add: fg_inv_def shell0_def)
qed

lemma one_foreground_without_lookup_race:
  assumes "run evs (AtPrompt, shell0 v) = Some (c, s)" and "race_free evs (AtPrompt, shell0 v)"
  shows "fg_count (jobs s) \<le> 1"
  using fg_inv_run [OF fg_inv_start assms] by (simp add: fg_inv_def)

text \<open>
  Both hold of the sessions above; the session \<open>fg_race\<close> is one of the runs the first
  excludes.
\<close>

lemma one_foreground_without_lookup_race_example:
  "race_free stop_and_resume (AtPrompt, shell0 False) \<and>
   run stop_and_resume (AtPrompt, shell0 False) =
     Some (WaitEnter 100,
           sh [job_sleep FG, job_cat ST] sleep_launched [(101, SIGTSTP), (- 100, SIGCONT)]) \<and>
   fg_count (jobs (sh [job_sleep FG, job_cat ST] sleep_launched
                      [(101, SIGTSTP), (- 100, SIGCONT)])) \<le> 1 \<and>
   \<not> race_free fg_race (AtPrompt, shell0 False)"
proof -
  have a: "race_free stop_and_resume (AtPrompt, shell0 False)" by code_simp
  have b: "run stop_and_resume (AtPrompt, shell0 False) =
     Some (WaitEnter 100,
           sh [job_sleep FG, job_cat ST] sleep_launched [(101, SIGTSTP), (- 100, SIGCONT)])"
    by code_simp
  note c = one_foreground_without_lookup_race [OF b a]
  have d: "\<not> race_free fg_race (AtPrompt, shell0 False)" by code_simp
  from a b c d show ?thesis by (intro conjI)
qed

lemma waitfg_awake_without_sigtstp_example:
  "run (wait_until_test @ [Main 0]) (AtPrompt, shell0 False) =
     Some (WaitSuspended 101 False, sh [job_sleep BG, job_cat FG] sleep_launched []) \<and>
   \<not> list_ex is_sigtstp (wait_until_test @ [Main 0]) \<and>
   fgpid (jobs (sh [job_sleep BG, job_cat FG] sleep_launched [])) = 101"
proof -
  have a: "run (wait_until_test @ [Main 0]) (AtPrompt, shell0 False) =
     Some (WaitSuspended 101 False, sh [job_sleep BG, job_cat FG] sleep_launched [])"
    by code_simp
  have b: "\<not> list_ex is_sigtstp (wait_until_test @ [Main 0])" by code_simp
  note c = waitfg_awake_without_sigtstp [OF a b]
  from a b c show ?thesis by (intro conjI)
qed

section \<open>Properties of the redirection loop\<close>

lemma redirect_skip:
  assumes "args c = map Str (pre1 @ pre2) @ rest"
    and "''<'' \<notin> set pre2" and "''>'' \<notin> set pre2"
    and "int (length pre1 + length pre2) \<le> argc c - 1"
  shows "eval_redirect open_rv dup2_rv (length pre1) c =
         eval_redirect open_rv dup2_rv (length pre1 + length pre2) c"
  using assms
proof (induction pre2 arbitrary: pre1)
  case Nil
  then show ?case by simp
next
  case (Cons x xs)
  from Cons.prems(1) have n: "args c ! length pre1 = Str x" "length pre1 < length (args c)"
    by (simp_all add: nth_append)
  from Cons.prems(2,3) have x: "x \<noteq> ''<''" "x \<noteq> ''>''" by auto
  from n x have st: "redirect_step open_rv dup2_rv (length pre1) c = Ret c"
    by (simp add: redirect_step_def)
  from Cons.prems(4) have lt: "int (length pre1) < argc c - 1" by simp
  have "eval_redirect open_rv dup2_rv (length pre1) c =
        eval_redirect open_rv dup2_rv (Suc (length pre1)) c"
    using lt st by (subst eval_redirect.simps) simp
  also have "\<dots> = eval_redirect open_rv dup2_rv (length (pre1 @ [x])) c" by simp
  also have "\<dots> = eval_redirect open_rv dup2_rv (length (pre1 @ [x]) + length xs) c"
    using Cons.prems by (intro Cons.IH) auto
  finally show ?case by simp
qed

lemma remove_args_short:
  assumes "length post \<le> 2"
  shows "\<exists>rest. remove_args (map Str pre @ Str opr # Str fname # map Str post @ Null # j0 # junk)
           (length pre + 2 + length post) (length pre) 2 =
         Some (map Str pre @ map Str post @ Null # rest)"
proof -
  consider "post = []" | a where "post = [a]" | a b where "post = [a, b]"
    using assms by (cases post; cases "tl post"; cases "tl (tl post)") auto
  then show ?thesis
  proof cases
    case 1
    then show ?thesis
      by (simp add: remove_args_def numeral_2_eq_2 nth_append list_update_append)
  next
    case 2
    then show ?thesis
      by (simp add: remove_args_def numeral_3_eq_3 nth_append list_update_append)
  next
    case 3
    then show ?thesis
      by (simp add: remove_args_def eval_nat_numeral nth_append list_update_append)
  qed
qed

lemma redirect_last:
  assumes arr: "args c = map Str pre @ Str opr # Str fname # map Str post @ Null # j0 # junk"
    and n: "argc c = int (length pre + 2 + length post)"
    and post: "length post \<le> 2"
    and st: "redirect_step open_rv dup2_rv (length pre) c = drop_redirect (length pre) c1"
    and c1: "args c1 = args c" "argc c1 = argc c"
  shows "\<exists>rest. eval_redirect open_rv dup2_rv (length pre) c =
           Ret (c1\<lparr>args := map Str pre @ map Str post @ Null # rest,
                    argc := int (length pre + length post)\<rparr>)"
proof -
  from remove_args_short [OF post, of pre opr fname j0 junk] obtain rest where
    r: "remove_args (args c) (length pre + 2 + length post) (length pre) 2 =
        Some (map Str pre @ map Str post @ Null # rest)"
    unfolding arr by blast
  let ?c2 = "c1\<lparr>args := map Str pre @ map Str post @ Null # rest,
                 argc := int (length pre + length post)\<rparr>"
  have nn: "nat (argc c1) = length pre + 2 + length post" "argc c1 - 2 = int (length pre + length post)"
    using n c1 by simp_all
  have d: "drop_redirect (length pre) c1 = Ret ?c2"
    unfolding drop_redirect_def nn c1(1) r by simp
  have lt: "int (length pre) < argc c - 1" using n by simp
  have stop: "\<not> int (Suc (length pre)) < argc ?c2 - 1" using post by simp
  have "eval_redirect open_rv dup2_rv (length pre) c =
        eval_redirect open_rv dup2_rv (Suc (length pre)) ?c2"
    using lt st d by (subst eval_redirect.simps) simp
  also have "\<dots> = Ret ?c2" using stop by (subst eval_redirect.simps) simp
  finally show ?thesis by blast
qed

lemma cat_out_array:
  "args (child_of [''cat'', ''>'', ''out.txt'']) =
     map Str ([''cat''] @ ''>'' # ''out.txt'' # []) @ Null # Junk # replicate 123 Junk"
  "argc (child_of [''cat'', ''>'', ''out.txt'']) = int (length [''cat''] + 2 + length ([]::string list))"
  by code_simp+

lemma sort_in_array:
  "args (child_of [''sort'', ''<'', ''in.txt'', ''-r'']) =
     map Str ([''sort''] @ ''<'' # ''in.txt'' # [''-r'']) @ Null # Junk # replicate 122 Junk"
  "argc (child_of [''sort'', ''<'', ''in.txt'', ''-r'']) = int (length [''sort''] + 2 + length [''-r''])"
  by code_simp+

section \<open>Handlers between the statements of the main flow\<close>

text \<open>
  C1. At every observable instant at most one entry of the job table has the state
  Foreground. The program does not keep this. \<^verbatim>\<open>do_bgfg\<close> runs with no signal blocked,
  so in the session \<open>fg_race\<close> the handler of SIGCHLD clears slot 0 after \<^verbatim>\<open>fg %1\<close> has
  found it and before \<^verbatim>\<open>job->state = FG\<close> is written to it: the cleared slot is left
  with the state FG and the pid 0. From then on \<^verbatim>\<open>fgpid(jobs)\<close> is 0, so \<^verbatim>\<open>fg %2\<close> and
  \<^verbatim>\<open>fg %3\<close> set their jobs to FG and neither waits. The shell is back at its prompt with
  three slots in the state FG, two of them the running jobs 101 and 102.
\<close>

theorem two_foreground_jobs_at_the_prompt:
  "run fg_race (AtPrompt, shell0 False) =
     Some (AtPrompt,
           sh [\<lparr>pid = 0, jid = 0, state = FG, cmdline = []\<rparr>, job_bg 101 2 FG, job_bg 102 3 FG]
              three_launched []) \<and>
   shell_reach (AtPrompt,
           sh [\<lparr>pid = 0, jid = 0, state = FG, cmdline = []\<rparr>, job_bg 101 2 FG, job_bg 102 3 FG]
              three_launched []) \<and>
   fg_count (jobs (sh [\<lparr>pid = 0, jid = 0, state = FG, cmdline = []\<rparr>, job_bg 101 2 FG,
                       job_bg 102 3 FG] three_launched [])) = 3 \<and>
   fg_jobs (jobs (sh [\<lparr>pid = 0, jid = 0, state = FG, cmdline = []\<rparr>, job_bg 101 2 FG,
                      job_bg 102 3 FG] three_launched [])) = [job_bg 101 2 FG, job_bg 102 3 FG]"
proof -
  let ?s = "sh [\<lparr>pid = 0, jid = 0, state = FG, cmdline = []\<rparr>, job_bg 101 2 FG, job_bg 102 3 FG]
              three_launched []"
  have r: "run fg_race (AtPrompt, shell0 False) = Some (AtPrompt, ?s)" by code_simp
  have "shell_reach (AtPrompt, shell0 False)" by (rule shell_reach.start)
  then have s: "shell_reach (AtPrompt, ?s)" using r by (rule run_reach)
  have c: "fg_count (jobs ?s) = 3" by code_simp
  have f: "fg_jobs (jobs ?s) = [job_bg 101 2 FG, job_bg 102 3 FG]" by code_simp
  from r s c f show ?thesis by (intro conjI)
qed

text \<open>
  C9. \<^verbatim>\<open>waitfg(pid)\<close> blocks until \<open>pid\<close> is no longer the foreground pid of the table,
  and a change of state delivered between its test and its \<^verbatim>\<open>sigsuspend\<close> is never lost.
  The program keeps this for SIGCHLD, which \<^verbatim>\<open>waitfg\<close> blocks around the test: the signal
  stays pending, its handler runs inside \<^verbatim>\<open>sigsuspend\<close>, and \<^verbatim>\<open>waitfg\<close> returns. It does
  not keep it for SIGTSTP, which \<^verbatim>\<open>waitfg\<close> leaves unblocked: in \<^verbatim>\<open>waitfg(101)\<close>, when
  \<^verbatim>\<open>sigtstp_handler\<close> runs after the test and before \<^verbatim>\<open>sigsuspend\<close>, it sets the job to
  ST, and the main flow then enters \<^verbatim>\<open>sigsuspend\<close> with no signal pending although 101 is
  no longer the foreground pid. It stays there until some other signal is handled.
\<close>

theorem waitfg_sleeps_after_suspend_key:
  "run (wait_until_test @ [Sigtstp 0, Main 0]) (AtPrompt, shell0 False) =
     Some (WaitSuspended 101 False,
           sh [job_sleep BG, job_cat ST] sleep_launched [(101, SIGTSTP)]) \<and>
   shell_reach (WaitSuspended 101 False,
           sh [job_sleep BG, job_cat ST] sleep_launched [(101, SIGTSTP)]) \<and>
   fgpid (jobs (sh [job_sleep BG, job_cat ST] sleep_launched [(101, SIGTSTP)])) = 0 \<and>
   main_step 0 (WaitSuspended 101 False)
     (sh [job_sleep BG, job_cat ST] sleep_launched [(101, SIGTSTP)]) = None \<and>
   run (wait_until_test @ [Sigchld [101, 0], Main 0, Sigchld [101, 0], Main 0])
     (AtPrompt, shell0 False) =
     Some (AtPrompt, sh [job_sleep BG] sleep_launched [])"
proof -
  let ?s = "sh [job_sleep BG, job_cat ST] sleep_launched [(101, SIGTSTP)]"
  have r: "run (wait_until_test @ [Sigtstp 0, Main 0]) (AtPrompt, shell0 False) =
      Some (WaitSuspended 101 False, ?s)" by code_simp
  have "shell_reach (AtPrompt, shell0 False)" by (rule shell_reach.start)
  then have s: "shell_reach (WaitSuspended 101 False, ?s)" using r by (rule run_reach)
  have f: "fgpid (jobs ?s) = 0" by code_simp
  have m: "main_step 0 (WaitSuspended 101 False) ?s = None" by (simp add: main_step_def)
  have c: "run (wait_until_test @ [Sigchld [101, 0], Main 0, Sigchld [101, 0], Main 0])
     (AtPrompt, shell0 False) = Some (AtPrompt, sh [job_sleep BG] sleep_launched [])"
    by code_simp
  from r s f m c show ?thesis by (intro conjI)
qed

section \<open>Commands and the handlers of the keyboard signals\<close>

text \<open>
  C8. When the argument of \<^verbatim>\<open>bg\<close> or \<^verbatim>\<open>fg\<close> names no job of the table (a pid, or a
  jid after \<open>%\<close>, that no occupied slot has), the dispatcher prints the argument
  followed by ": No such job" and returns to the prompt; it calls \<^verbatim>\<open>kill\<close> for no
  process and leaves every slot of the table as it was.
\<close>

theorem unknown_job_changes_nothing:
  assumes "jobs_ok (jobs s)" and "cmd = ''bg'' \<or> cmd = ''fg''" and "names_no_job (jobs s) a"
  shows "builtin_cmd krv s (cmd # a # rest) =
         Ret (1, Prompt, s\<lparr>out := out s @ a @ '': No such job'' @ [NL]\<rparr>)"
proof -
  from assms(1,3) have "bgfg_target (jobs s) a = Ret None" by (rule bgfg_target_None)
  then have "do_bgfg krv s (cmd # a # rest) = Ret (Prompt, s\<lparr>out := out s @ no_such_job_msg a\<rparr>)"
    by (simp add: do_bgfg_def)
  with assms(2) show ?thesis by (auto simp: builtin_cmd_def no_such_job_msg_def)
qed

theorem unknown_job_changes_nothing_witness:
  "jobs_ok (jobs (sh [job_sleep BG] sleep_launched [])) \<and>
   names_no_job (jobs (sh [job_sleep BG] sleep_launched [])) ''99999'' \<and>
   names_no_job (jobs (sh [job_sleep BG] sleep_launched [])) ''%99'' \<and>
   builtin_cmd 0 (sh [job_sleep BG] sleep_launched []) [''fg'', ''99999''] =
     Ret (1, Prompt, sh [job_sleep BG] (sleep_launched @ ''99999: No such job'' @ [NL]) []) \<and>
   builtin_cmd 0 (sh [job_sleep BG] sleep_launched []) [''bg'', ''%99''] =
     Ret (1, Prompt, sh [job_sleep BG] (sleep_launched @ ''%99: No such job'' @ [NL]) [])"
proof -
  have c: "''fg'' = ''bg'' \<or> ''fg'' = ''fg''" "''bg'' = ''bg'' \<or> ''bg'' = ''fg''" by simp_all
  have "builtin_cmd 0 (sh [job_sleep BG] sleep_launched []) [''fg'', ''99999''] =
     Ret (1, Prompt, sh [job_sleep BG] (sleep_launched @ ''99999: No such job'' @ [NL]) [])"
    using unknown_job_changes_nothing [OF ok_sleep c(1) no_job_99999, of 0 "[]"]
    by (simp add: sh_def)
  moreover have "builtin_cmd 0 (sh [job_sleep BG] sleep_launched []) [''bg'', ''%99''] =
     Ret (1, Prompt, sh [job_sleep BG] (sleep_launched @ ''%99: No such job'' @ [NL]) [])"
    using unknown_job_changes_nothing [OF ok_sleep c(2) no_job_jid_99, of 0 "[]"]
    by (simp add: sh_def)
  ultimately show ?thesis using ok_sleep no_job_99999 no_job_jid_99 by (intro conjI)
qed




text \<open>
  C3 at a table whose only job, pid 101, is in the foreground: \<^verbatim>\<open>sigtstp_handler\<close> marks
  the job stopped and keeps it in the table, but its call is \<^verbatim>\<open>kill(101, SIGTSTP)\<close>,
  which names the one process 101; \<^verbatim>\<open>sigint_handler\<close> on the same table calls
  \<^verbatim>\<open>kill(-101, SIGINT)\<close>, which names the process group 101.
\<close>

theorem sigtstp_signals_one_process:
  "sigtstp_handler 0 (sh [job_cat FG] [] []) = Ret (sh [job_cat ST] [] [(101, SIGTSTP)]) \<and>
   kill_target 101 = Process 101 \<and>
   sigint_handler 0 (sh [job_cat FG] [] []) =
     Ret (sh [job_cat FG] (''Job [2] (101) terminated by signal 2'' @ [NL]) [(- 101, SIGINT)]) \<and>
   kill_target (- 101) = ProcessGroup 101"
  by code_simp










section \<open>Redirection of one command\<close>

text \<open>
  C4, as the code has it. When the argument list holds a single redirection token, \<open><\<close>
  or \<open>>\<close>, followed by a file name and at most two more arguments, and \<^verbatim>\<open>open\<close> and
  \<^verbatim>\<open>dup2\<close> succeed, the loop makes exactly these calls: for \<open><\<close>,
  \<^verbatim>\<open>open(file, O_RDONLY)\<close> and \<^verbatim>\<open>dup2\<close> of the descriptor onto 0; for \<open>>\<close>,
  \<^verbatim>\<open>open(file, O_RDWR | O_CREAT, S_IRUSR | S_IWUSR)\<close> (no \<^verbatim>\<open>O_TRUNC\<close>) and \<^verbatim>\<open>dup2\<close>
  onto 1 and onto 2. It leaves in \<^verbatim>\<open>argv\<close> the other arguments in their order, followed
  by \<^verbatim>\<open>NULL\<close>, and lowers \<^verbatim>\<open>argc\<close> by 2.
\<close>

theorem redirection_of_one_operator:
  assumes arr: "args c = map Str (pre @ opr # fname # post) @ Null # j0 # junk"
    and n: "argc c = int (length pre + 2 + length post)"
    and pre: "''<'' \<notin> set pre" "''>'' \<notin> set pre"
    and post: "length post \<le> 2"
    and fd: "open_rv fname \<noteq> - 1"
    and dup: "\<forall>new\<in>{0, 1, 2}. dup2_rv (open_rv fname) new \<noteq> - 1"
    and single: "''<'' \<notin> set post" "''>'' \<notin> set post"
  shows "(opr = ''<'' \<longrightarrow>
            (\<exists>rest. eval_redirect open_rv dup2_rv 0 c =
               Ret \<lparr>args = map Str (pre @ post) @ Null # rest,
                    argc = int (length pre + length post),
                    calls = calls c @ [Open fname [O_RDONLY] [], Dup2 (open_rv fname) 0]\<rparr>)) \<and>
         (opr = ''>'' \<longrightarrow>
            (\<exists>rest. eval_redirect open_rv dup2_rv 0 c =
               Ret \<lparr>args = map Str (pre @ post) @ Null # rest,
                    argc = int (length pre + length post),
                    calls = calls c @ [Open fname [O_RDWR, O_CREAT] [S_IRUSR, S_IWUSR],
                                       Dup2 (open_rv fname) 1, Dup2 (open_rv fname) 2]\<rparr>))"
proof -
  from arr have arr': "args c = map Str pre @ Str opr # Str fname # map Str post @ Null # j0 # junk"
    by simp
  from arr have a0: "args c = map Str ([] @ pre) @ (Str opr # Str fname # map Str post @ Null # j0 # junk)"
    by simp
  from n have le: "int (length ([]::string list) + length pre) \<le> argc c - 1" by simp
  have skip: "eval_redirect open_rv dup2_rv 0 c = eval_redirect open_rv dup2_rv (length pre) c"
    using redirect_skip [OF a0 pre le, of open_rv dup2_rv] by simp
  from arr' have cells: "args c ! length pre = Str opr" "args c ! (length pre + 1) = Str fname"
    "length pre + 1 < length (args c)"
    by (simp_all add: nth_append)
  from dup have d: "dup2_rv (open_rv fname) 0 \<noteq> - 1" "dup2_rv (open_rv fname) 1 \<noteq> - 1"
    "dup2_rv (open_rv fname) 2 \<noteq> - 1" by simp_all
  show ?thesis
  proof (intro conjI impI)
    assume opr: "opr = ''<''"
    let ?c1 = "c\<lparr>calls := calls c @ [Open fname [O_RDONLY] [], Dup2 (open_rv fname) 0]\<rparr>"
    have st: "redirect_step open_rv dup2_rv (length pre) c = drop_redirect (length pre) ?c1"
      using cells opr fd d by (simp add: redirect_step_def redirect_stream_def)
    from redirect_last [OF arr' n post st] obtain rest where
      "eval_redirect open_rv dup2_rv (length pre) c =
         Ret (?c1\<lparr>args := map Str pre @ map Str post @ Null # rest,
                    argc := int (length pre + length post)\<rparr>)" by auto
    with skip have "eval_redirect open_rv dup2_rv 0 c =
               Ret \<lparr>args = map Str (pre @ post) @ Null # rest,
                    argc = int (length pre + length post),
                    calls = calls c @ [Open fname [O_RDONLY] [], Dup2 (open_rv fname) 0]\<rparr>"
      by simp
    then show "\<exists>rest. eval_redirect open_rv dup2_rv 0 c =
               Ret \<lparr>args = map Str (pre @ post) @ Null # rest,
                    argc = int (length pre + length post),
                    calls = calls c @ [Open fname [O_RDONLY] [], Dup2 (open_rv fname) 0]\<rparr>"
      by blast
  next
    assume opr: "opr = ''>''"
    let ?c1 = "c\<lparr>calls := calls c @ [Open fname [O_RDWR, O_CREAT] [S_IRUSR, S_IWUSR],
                                       Dup2 (open_rv fname) 1, Dup2 (open_rv fname) 2]\<rparr>"
    have st: "redirect_step open_rv dup2_rv (length pre) c = drop_redirect (length pre) ?c1"
      using cells opr fd d by (simp add: redirect_step_def redirect_stream_def)
    from redirect_last [OF arr' n post st] obtain rest where
      "eval_redirect open_rv dup2_rv (length pre) c =
         Ret (?c1\<lparr>args := map Str pre @ map Str post @ Null # rest,
                    argc := int (length pre + length post)\<rparr>)" by auto
    with skip have "eval_redirect open_rv dup2_rv 0 c =
               Ret \<lparr>args = map Str (pre @ post) @ Null # rest,
                    argc = int (length pre + length post),
                    calls = calls c @ [Open fname [O_RDWR, O_CREAT] [S_IRUSR, S_IWUSR],
                                       Dup2 (open_rv fname) 1, Dup2 (open_rv fname) 2]\<rparr>"
      by simp
    then show "\<exists>rest. eval_redirect open_rv dup2_rv 0 c =
               Ret \<lparr>args = map Str (pre @ post) @ Null # rest,
                    argc = int (length pre + length post),
                    calls = calls c @ [Open fname [O_RDWR, O_CREAT] [S_IRUSR, S_IWUSR],
                                       Dup2 (open_rv fname) 1, Dup2 (open_rv fname) 2]\<rparr>"
      by blast
  qed
qed

theorem redirection_of_one_operator_witness:
  "args (child_of [''cat'', ''>'', ''out.txt'']) =
     map Str ([''cat''] @ ''>'' # ''out.txt'' # []) @ Null # Junk # replicate 123 Junk \<and>
   (\<exists>rest. eval_redirect (\<lambda>p. 3) (\<lambda>old new. new) 0 (child_of [''cat'', ''>'', ''out.txt'']) =
      Ret \<lparr>args = Str ''cat'' # Null # rest, argc = 1,
           calls = [Open ''out.txt'' [O_RDWR, O_CREAT] [S_IRUSR, S_IWUSR], Dup2 3 1, Dup2 3 2]\<rparr>) \<and>
   args (child_of [''sort'', ''<'', ''in.txt'', ''-r'']) =
     map Str ([''sort''] @ ''<'' # ''in.txt'' # [''-r'']) @ Null # Junk # replicate 122 Junk \<and>
   (\<exists>rest. eval_redirect (\<lambda>p. 3) (\<lambda>old new. new) 0 (child_of [''sort'', ''<'', ''in.txt'', ''-r'']) =
      Ret \<lparr>args = Str ''sort'' # Str ''-r'' # Null # rest, argc = 2,
           calls = [Open ''in.txt'' [O_RDONLY] [], Dup2 3 0]\<rparr>)"
proof -
  have p: "''<'' \<notin> set [''cat'']" "''>'' \<notin> set [''cat'']"
    "''<'' \<notin> set [''sort'']" "''>'' \<notin> set [''sort'']" by simp_all
  have q: "length ([]::string list) \<le> 2" "length [''-r''] \<le> 2" by simp_all
  have f: "(\<lambda>p::string. 3::int) ''out.txt'' \<noteq> - 1" "(\<lambda>p::string. 3::int) ''in.txt'' \<noteq> - 1"
    by simp_all
  have d: "\<forall>new\<in>{0, 1, 2}. (\<lambda>(old::int) new::int. new) ((\<lambda>p::string. 3::int) ''out.txt'') new \<noteq> - 1"
    "\<forall>new\<in>{0, 1, 2}. (\<lambda>(old::int) new::int. new) ((\<lambda>p::string. 3::int) ''in.txt'') new \<noteq> - 1"
    by simp_all
  have r: "''<'' \<notin> set ([]::string list)" "''>'' \<notin> set ([]::string list)"
    "''<'' \<notin> set [''-r'']" "''>'' \<notin> set [''-r'']" by simp_all
  have c0: "calls (child_of [''cat'', ''>'', ''out.txt'']) = []"
    "calls (child_of [''sort'', ''<'', ''in.txt'', ''-r'']) = []" by (simp_all add: child_of_def)
  from redirection_of_one_operator [OF cat_out_array p(1,2) q(1) f(1) d(1) r(1,2)]
  have a: "\<exists>rest. eval_redirect (\<lambda>p. 3) (\<lambda>old new. new) 0 (child_of [''cat'', ''>'', ''out.txt'']) =
      Ret \<lparr>args = Str ''cat'' # Null # rest, argc = 1,
           calls = [Open ''out.txt'' [O_RDWR, O_CREAT] [S_IRUSR, S_IWUSR], Dup2 3 1, Dup2 3 2]\<rparr>"
    by (simp add: c0)
  from redirection_of_one_operator [OF sort_in_array p(3,4) q(2) f(2) d(2) r(3,4)]
  have b: "\<exists>rest. eval_redirect (\<lambda>p. 3) (\<lambda>old new. new) 0 (child_of [''sort'', ''<'', ''in.txt'', ''-r'']) =
      Ret \<lparr>args = Str ''sort'' # Str ''-r'' # Null # rest, argc = 2,
           calls = [Open ''in.txt'' [O_RDONLY] [], Dup2 3 0]\<rparr>"
    by (simp add: c0)
  from cat_out_array(1) a sort_in_array(1) b show ?thesis by (intro conjI)
qed

text \<open>
  C4 as stated fails. For \<^verbatim>\<open>cat > out.txt\<close> the flags of \<^verbatim>\<open>open\<close> are
  \<^verbatim>\<open>O_RDWR | O_CREAT\<close>, without \<^verbatim>\<open>O_TRUNC\<close>: a file that exists is not truncated. For
  \<^verbatim>\<open>cat < in a b c\<close> the arguments left are \<open>cat a b\<close> followed by \<^verbatim>\<open>NULL\<close>: \<open>c\<close> is
  lost, because \<^verbatim>\<open>remove_args\<close> writes its \<^verbatim>\<open>NULL\<close> at \<open>index + 2\<close>. For
  \<^verbatim>\<open>cat < in > out\<close> the loop opens \<open>in\<close> only: after the removal the token \<open>>\<close> stands
  at the index the loop has just left, so \<open>out\<close> is never opened, and \<open>>\<close> and \<open>out\<close>
  stay in \<^verbatim>\<open>argv\<close> as arguments of the program.
\<close>

theorem redirection_counterexample:
  "eval_redirect (\<lambda>p. 3) (\<lambda>old new. new) 0 (child_of [''cat'', ''>'', ''out.txt'']) =
     Ret \<lparr>args = Str ''cat'' # Null # Junk # Null # replicate 124 Junk, argc = 1,
          calls = [Open ''out.txt'' [O_RDWR, O_CREAT] [S_IRUSR, S_IWUSR], Dup2 3 1, Dup2 3 2]\<rparr> \<and>
   O_TRUNC \<notin> set [O_RDWR, O_CREAT] \<and>
   eval_redirect (\<lambda>p. 3) (\<lambda>old new. new) 0 (child_of [''cat'', ''<'', ''in'', ''a'', ''b'', ''c'']) =
     Ret \<lparr>args = Str ''cat'' # Str ''a'' # Str ''b'' # Null # Null # Junk # Null #
                 replicate 121 Junk,
          argc = 4, calls = [Open ''in'' [O_RDONLY] [], Dup2 3 0]\<rparr> \<and>
   take 4 (Str ''cat'' # Str ''a'' # Str ''b'' # Null # Null # Junk # Null # replicate 121 Junk) \<noteq>
     map Str [''cat'', ''a'', ''b'', ''c''] \<and>
   eval_redirect (\<lambda>p. 3) (\<lambda>old new. new) 0 (child_of [''cat'', ''<'', ''in'', ''>'', ''out'']) =
     Ret \<lparr>args = Str ''cat'' # Str ''>'' # Str ''out'' # Null # Junk # Null # replicate 122 Junk,
          argc = 3, calls = [Open ''in'' [O_RDONLY] [], Dup2 3 0]\<rparr>"
  by code_simp

end
